theory Spec2Isabelle
  imports Complex_Main "HOL-Library.Word"
begin

unbundle bit_operations_syntax

section \<open>Values of the C program\<close>

text \<open>
  \<^verbatim>\<open>size_t\<close> and \<^verbatim>\<open>uint64_t\<close> are 64-bit words (\<^verbatim>\<open>next_power_of_2\<close> shifts by 32, so
  the source assumes a 64-bit \<^verbatim>\<open>size_t\<close>): \<open>+\<close> and \<open>*\<close> wrap around as in C.

  A \<^verbatim>\<open>double\<close> is the real number it denotes: rounding is not modelled, and the
  infinities and NaN are not values of the model.

  Undefined behaviour of the C program is a value of type \<open>error\<close>; so is running out of
  fuel where the source recursion or loop need not end.
\<close>

type_synonym size_t = "64 word"

datatype error =
    OutOfBounds
  | NullDereference
  | DivisionByZero
  | ConversionOverflow
  | BadArraySize
  | OutOfFuel

type_synonym double = real

text \<open>
  The quotient \<^verbatim>\<open>(double) a / b\<close> of two C \<^verbatim>\<open>int\<close>s. ISO C leaves a division by zero
  undefined (an IEEE-754 implementation delivers an infinity or a NaN, which are not
  values of the model).
\<close>

definition double_div_int :: "int \<Rightarrow> int \<Rightarrow> error + double" where
  "double_div_int a b =
     (if b = 0 then Inl DivisionByZero else Inr (real_of_int a / real_of_int b))"



section \<open>FreqHash.c\<close>

subsection \<open>Data\<close>

text \<open>
  A \<^verbatim>\<open>char *\<close> key is the C string it points to (the bytes before the terminating NUL),
  or \<open>None\<close> for \<^verbatim>\<open>NULL\<close>. An array obtained from \<^verbatim>\<open>hash_malloc\<close> is the list of its
  elements, so the length of the list is the allocated capacity; a \<^verbatim>\<open>NULL\<close> array is
  \<open>None\<close>. Allocation is assumed to succeed and to give as many elements as the
  program asks for.
\<close>

record Pair =
  key :: "string option"
  val :: double

record Bucket =
  pairs :: "Pair list option"
  b_length :: size_t

record Hash =
  buckets :: "Bucket list"
  h_length :: size_t
  h_count :: size_t

definition DEFAULT_CAPACITY :: size_t where
  "DEFAULT_CAPACITY = 10"

definition RESIZE_MIN :: size_t where
  "RESIZE_MIN = 16"

text \<open>\<^verbatim>\<open>sizeof(Bucket)\<close>: a pointer and a \<^verbatim>\<open>size_t\<close>, 8 bytes each.\<close>

definition sizeof_Bucket :: size_t where
  "sizeof_Bucket = 16"

text \<open>Memory as \<^verbatim>\<open>hash_malloc\<close> returns it: every byte is zero.\<close>

definition zero_Pair :: Pair where
  "zero_Pair = \<lparr>key = None, val = 0\<rparr>"

definition zero_Bucket :: Bucket where
  "zero_Bucket = \<lparr>pairs = None, b_length = 0\<rparr>"

subsection \<open>Sizes\<close>

definition next_power_of_2 :: "size_t \<Rightarrow> size_t" where
  "next_power_of_2 x =
     (let x = x OR drop_bit 1 x;
          x = x OR drop_bit 2 x;
          x = x OR drop_bit 4 x;
          x = x OR drop_bit 8 x;
          x = x OR drop_bit 16 x;
          x = x OR drop_bit 32 x
      in x + 1)"

definition next_size :: "size_t \<Rightarrow> size_t" where
  "next_size x = (if x < RESIZE_MIN then RESIZE_MIN else next_power_of_2 x)"

definition resize_p :: "size_t \<Rightarrow> bool" where
  "resize_p x \<longleftrightarrow> x \<ge> RESIZE_MIN \<and> x AND (x - 1) = 0"

subsection \<open>The hash function\<close>

text \<open>
  \<^verbatim>\<open>*key\<close> is a \<^verbatim>\<open>char\<close>, signed on the platforms the program was written for: a byte
  above 127 is a negative number, converted to \<^verbatim>\<open>size_t\<close> modulo \<open>2 ^ 64\<close>.
\<close>

definition char_to_size_t :: "char \<Rightarrow> size_t" where
  "char_to_size_t c =
     (if (of_char c :: nat) < 128 then of_nat (of_char c) else of_nat (of_char c) - 256)"

definition hash_function :: "string \<Rightarrow> size_t" where
  "hash_function k = foldl (\<lambda>x c. 33 * x + char_to_size_t c) 5381 k"

subsection \<open>Initialisation\<close>

definition hash_init_capacity :: "size_t \<Rightarrow> Hash" where
  "hash_init_capacity capacity =
     \<lparr>buckets = replicate (unat (next_size capacity)) zero_Bucket,
      h_length = next_size capacity,
      h_count = 0\<rparr>"

definition hash_init :: Hash where
  "hash_init = hash_init_capacity DEFAULT_CAPACITY"

subsection \<open>Lookup\<close>

text \<open>
  The loop \<^verbatim>\<open>for (j = 0; j < length; ++j) if (strcmp(pairs[j].key, key) == 0) ...\<close>
  that \<^verbatim>\<open>hash_exists\<close>, \<^verbatim>\<open>hash_get\<close>, \<^verbatim>\<open>hash_inc\<close> and \<^verbatim>\<open>hash_put\<close> all start with,
  from index \<open>j\<close> on: the index of the first pair whose key equals \<open>k\<close>, if there is one.
\<close>

function find_key :: "Pair list \<Rightarrow> nat \<Rightarrow> nat \<Rightarrow> string \<Rightarrow> error + nat option" where
  "find_key ps len j k =
     (if j < len then
        (if j < length ps then
           (case key (ps ! j) of
              None \<Rightarrow> Inl NullDereference
            | Some s \<Rightarrow> if s = k then Inr (Some j) else find_key ps len (Suc j) k)
         else Inl OutOfBounds)
      else Inr None)"
  by pat_completeness auto
termination
  by (relation "measure (\<lambda>(ps, len, j, k). len - j)") auto

declare find_key.simps [simp del]

text \<open>The bucket of a key: \<^verbatim>\<open>hash.buckets[hash_function(key) % hash.length]\<close>.\<close>

definition bucket_index :: "Hash \<Rightarrow> string \<Rightarrow> error + nat" where
  "bucket_index h k =
     (if h_length h = 0 then Inl DivisionByZero
      else let i = unat (hash_function k mod h_length h)
           in if i < length (buckets h) then Inr i else Inl OutOfBounds)"

definition hash_exists :: "Hash \<Rightarrow> string \<Rightarrow> error + int" where
  "hash_exists h k =
     (case bucket_index h k of
        Inl e \<Rightarrow> Inl e
      | Inr i \<Rightarrow>
          (case pairs (buckets h ! i) of
             None \<Rightarrow> Inr 0
           | Some ps \<Rightarrow>
               (case find_key ps (unat (b_length (buckets h ! i))) 0 k of
                  Inl e \<Rightarrow> Inl e
                | Inr (Some j) \<Rightarrow> Inr 1
                | Inr None \<Rightarrow> Inr 0)))"


subsection \<open>Insertion\<close>

text \<open>
  \<^verbatim>\<open>hash_realloc(pairs, sizeof(Pair) * n)\<close> followed by the loop that sets the keys from
  index \<open>len\<close> on to \<^verbatim>\<open>NULL\<close>. The values of the added pairs are indeterminate in C; the
  model takes zero.
\<close>

definition realloc_pairs :: "Pair list \<Rightarrow> nat \<Rightarrow> nat \<Rightarrow> Pair list" where
  "realloc_pairs ps len n =
     map (\<lambda>j. if j < length ps
               then (if len \<le> j then (ps ! j)\<lparr>key := None\<rparr> else ps ! j)
               else zero_Pair) [0..<n]"

text \<open>
  The body that \<^verbatim>\<open>hash_inc\<close> and \<^verbatim>\<open>hash_put\<close> share up to \<^verbatim>\<open>++hash->count\<close>; they differ
  only in the new value of a pair that is found (\<open>upd\<close>). The result says whether a pair
  was added.

  When the bucket is grown, the loop that clears the new keys leaves \<open>j\<close> at the new
  capacity \<^verbatim>\<open>next_size(length + 1)\<close>, and the pair is then written at that index.
\<close>

definition store_pair ::
  "(double \<Rightarrow> double) \<Rightarrow> Hash \<Rightarrow> string \<Rightarrow> double \<Rightarrow> error + (Hash \<times> bool)" where
  "store_pair upd h k v =
     (case bucket_index h k of
        Inl e \<Rightarrow> Inl e
      | Inr i \<Rightarrow>
          let b = buckets h ! i in
          (case pairs b of
             None \<Rightarrow>
               Inr (h\<lparr>buckets := (buckets h)
                      [i := \<lparr>pairs = Some ((replicate (unat (next_size 1)) zero_Pair)
                                              [0 := \<lparr>key = Some k, val = v\<rparr>]),
                             b_length = 1\<rparr>]\<rparr>, True)
           | Some ps \<Rightarrow>
               (case find_key ps (unat (b_length b)) 0 k of
                  Inl e \<Rightarrow> Inl e
                | Inr (Some j) \<Rightarrow>
                    Inr (h\<lparr>buckets := (buckets h)
                           [i := b\<lparr>pairs := Some (ps[j := (ps ! j)\<lparr>val := upd (val (ps ! j))\<rparr>])\<rparr>]\<rparr>,
                         False)
                | Inr None \<Rightarrow>
                    let n = unat (next_size (b_length b + 1));
                        (ps', j) =
                          (if resize_p (b_length b)
                           then (realloc_pairs ps (unat (b_length b)) n, max (unat (b_length b)) n)
                           else (ps, unat (b_length b)))
                    in if j < length ps'
                       then Inr (h\<lparr>buckets := (buckets h)
                                   [i := \<lparr>pairs = Some (ps'[j := \<lparr>key = Some k, val = v\<rparr>]),
                                          b_length = b_length b + 1\<rparr>]\<rparr>, True)
                       else Inl OutOfBounds)))"

text \<open>
  The reads \<^verbatim>\<open>buckets[i].pairs[j]\<close> of the two nested \<^verbatim>\<open>for\<close> statements of
  \<^verbatim>\<open>hash_resize\<close>, in order, for every \<open>i < length\<close> and \<open>j < buckets[i].length\<close>. A
  read that fails is an error in the list; \<open>reinsert\<close> below ends at the first one.
\<close>

definition bucket_reads :: "Bucket \<Rightarrow> (error + Pair) list" where
  "bucket_reads b =
     map (\<lambda>j. case pairs b of
                None \<Rightarrow> Inl NullDereference
              | Some ps \<Rightarrow> if j < length ps then Inr (ps ! j) else Inl OutOfBounds)
         [0..<unat (b_length b)]"

definition table_reads :: "Hash \<Rightarrow> (error + Pair) list" where
  "table_reads h =
     concat (map (\<lambda>i. if i < length (buckets h) then bucket_reads (buckets h ! i)
                      else [Inl OutOfBounds])
                 [0..<unat (h_length h)])"

text \<open>
  \<^verbatim>\<open>hash_put\<close> calls \<^verbatim>\<open>hash_resize\<close>, which calls \<^verbatim>\<open>hash_put\<close> on the new table. The
  first argument bounds the depth of this recursion: \<^verbatim>\<open>hash_resize\<close> needs one unit.
  \<open>reinsert\<close> is the loop body of \<^verbatim>\<open>hash_resize\<close> over the reads of the old table.
  \<^verbatim>\<open>hash_clear\<close> only releases the old table, which \<^verbatim>\<open>*hash = res\<close> then replaces.
\<close>

fun hash_put :: "nat \<Rightarrow> Hash \<Rightarrow> string \<Rightarrow> double \<Rightarrow> error + Hash"
  and hash_resize :: "nat \<Rightarrow> Hash \<Rightarrow> error + Hash"
  and reinsert :: "nat \<Rightarrow> (error + Pair) list \<Rightarrow> Hash \<Rightarrow> error + Hash" where
  "hash_put n h k v =
     (case store_pair (\<lambda>old. v) h k v of
        Inl e \<Rightarrow> Inl e
      | Inr (h', added) \<Rightarrow>
          if added then
            (let h'' = h'\<lparr>h_count := h_count h' + 1\<rparr>
             in if h_count h'' * 100 > h_length h'' * 75 then hash_resize n h'' else Inr h'')
          else Inr h')"
| "hash_resize 0 h = Inl OutOfFuel"
| "hash_resize (Suc n) h =
     reinsert n (table_reads h) (hash_init_capacity (sizeof_Bucket * next_size (h_length h)))"
| "reinsert n [] res = Inr res"
| "reinsert n (Inl e # rs) res = Inl e"
| "reinsert n (Inr p # rs) res =
     (case key p of
        None \<Rightarrow> reinsert n rs res
      | Some k \<Rightarrow>
          (case hash_put n res k (val p) of
             Inl e \<Rightarrow> Inl e
           | Inr res' \<Rightarrow> reinsert n rs res'))"

definition hash_inc :: "nat \<Rightarrow> Hash \<Rightarrow> string \<Rightarrow> double \<Rightarrow> error + Hash" where
  "hash_inc n h k v =
     (case store_pair (\<lambda>old. old + v) h k v of
        Inl e \<Rightarrow> Inl e
      | Inr (h', added) \<Rightarrow>
          if added then
            (let h'' = h'\<lparr>h_count := h_count h' + 1\<rparr>
             in if h_count h'' * 100 > h_length h'' * 75 then hash_resize n h'' else Inr h'')
          else Inr h')"

declare hash_put.simps [simp del]

section \<open>frequency.c\<close>

subsection \<open>Characters, strings and buffers\<close>

text \<open>
  A buffer is the list of the bytes of its allocated extent. Reading or writing at an
  index outside the list is \<open>OutOfBounds\<close>. The character classes are those of the C
  locale; a byte above 127 is in none of them.
\<close>

definition MAX_WORD_LEN :: nat where
  "MAX_WORD_LEN = 1000"

definition NUL :: char where
  "NUL = CHR 0x00"

definition isalnum :: "char \<Rightarrow> bool" where
  "isalnum c \<longleftrightarrow>
     (let n = (of_char c :: nat)
      in (48 \<le> n \<and> n \<le> 57) \<or> (65 \<le> n \<and> n \<le> 90) \<or> (97 \<le> n \<and> n \<le> 122))"

definition isprint :: "char \<Rightarrow> bool" where
  "isprint c \<longleftrightarrow> (let n = (of_char c :: nat) in 32 \<le> n \<and> n \<le> 126)"

definition tolower :: "char \<Rightarrow> char" where
  "tolower c =
     (let n = (of_char c :: nat) in if 65 \<le> n \<and> n \<le> 90 then char_of (n + 32) else c)"

text \<open>The C string that starts at index \<open>p\<close> of a buffer: the bytes before the next NUL.\<close>

definition c_string :: "char list \<Rightarrow> nat \<Rightarrow> error + string" where
  "c_string buf p =
     (if NUL \<in> set (drop p buf) then Inr (takeWhile (\<lambda>c. c \<noteq> NUL) (drop p buf))
      else Inl OutOfBounds)"

subsection \<open>Reading a file\<close>

text \<open>
  The file system is a parameter \<open>fs\<close>: the bytes of a file that can be opened. So is the
  content of memory that \<^verbatim>\<open>malloc\<close> and \<^verbatim>\<open>realloc\<close> return and the program has not
  written: \<open>uninit p\<close> is the byte at offset \<open>p\<close>.

  \<^verbatim>\<open>read_file\<close> starts with 256 bytes and multiplies the extent by 4 when index \<open>i\<close>
  reaches it. \<^verbatim>\<open>fgetc\<close>'s result is stored in a (signed) \<^verbatim>\<open>char\<close> before the comparison
  with \<^verbatim>\<open>EOF\<close>, so a byte 255 ends the loop as the end of the file does. The terminating
  NUL is written at index \<open>i\<close> without a check.
\<close>

function buffer_extent :: "nat \<Rightarrow> nat \<Rightarrow> nat" where
  "buffer_extent t n = (if t = 0 \<or> n \<le> t then t else buffer_extent (4 * t) n)"
  by pat_completeness auto
termination
  by (relation "measure (\<lambda>(t, n). n - t)") auto

declare buffer_extent.simps [simp del]

definition read_file ::
  "(string \<Rightarrow> char list option) \<Rightarrow> (nat \<Rightarrow> char) \<Rightarrow> string \<Rightarrow> error + (int \<times> char list \<times> size_t)" where
  "read_file fs uninit filename =
     (case fs filename of
        None \<Rightarrow> Inr (- 1, [], 0)
      | Some bytes \<Rightarrow>
          let content = takeWhile (\<lambda>c. c \<noteq> CHR 0xFF) bytes;
              i = length content;
              tmp_length = buffer_extent 256 i
          in if i < tmp_length
             then Inr (0, content @ [NUL] @ map uninit [Suc i..<tmp_length], of_nat i)
             else Inl OutOfBounds)"

text \<open>\<^verbatim>\<open>filter_chars\<close>: \<^verbatim>\<open>tolower\<close> on the \<^verbatim>\<open>strlen(buffer)\<close> bytes before the first NUL.\<close>

definition filter_chars :: "char list \<Rightarrow> error + char list" where
  "filter_chars buffer =
     (case c_string buffer 0 of
        Inl e \<Rightarrow> Inl e
      | Inr s \<Rightarrow> Inr (map tolower s @ drop (length s) buffer))"

subsection \<open>The matcher\<close>

text \<open>
  \<^verbatim>\<open>regcomp\<close> and \<^verbatim>\<open>regexec\<close> are parameters. \<open>regexec s\<close> is the result of
  \<^verbatim>\<open>regexec(&compiled, p, 2, matchptr, 0)\<close> where \<open>s\<close> is the C string at \<open>p\<close>: a match
  with \<^verbatim>\<open>matchptr[0]\<close> and \<^verbatim>\<open>matchptr[1]\<close>, \<^verbatim>\<open>REG_ESPACE\<close>, or any other nonzero code
  (\<open>REG_NOMATCH\<close>).
\<close>

record regmatch_t =
  rm_so :: int
  rm_eo :: int

datatype regexec_result = Match regmatch_t regmatch_t | REG_NOMATCH | REG_ESPACE

subsection \<open>Scanning\<close>

text \<open>
  \<^verbatim>\<open>legal_chars\<close> increments both \<open>i\<close> and \<^verbatim>\<open>sequence\<close> in each iteration, so it reads
  the bytes at offsets 0, 2, 4, ... of the sequence; \<open>q\<close> is the index of the next read
  and the third argument the number of iterations left.
\<close>

fun legal_chars :: "char list \<Rightarrow> nat \<Rightarrow> nat \<Rightarrow> error + bool" where
  "legal_chars buf q 0 = Inr True"
| "legal_chars buf q (Suc n) =
     (if q < length buf then
        (let c = buf ! q
         in if \<not> isprint c \<and> c \<noteq> CHR 0x0A \<and> c \<noteq> CHR 0x09 then Inr False
            else legal_chars buf (q + 2) n)
      else Inl OutOfBounds)"

text \<open>
  \<^verbatim>\<open>freq_hash_inc(hash, buffer + p, value, matchptr)\<close>. The byte after the sequence is
  replaced by NUL for the call of \<^verbatim>\<open>hash_inc\<close> and put back after it, so the buffer is
  the same afterwards and only the hash is returned.
\<close>

definition freq_hash_inc ::
  "nat \<Rightarrow> Hash \<Rightarrow> char list \<Rightarrow> nat \<Rightarrow> double \<Rightarrow> regmatch_t \<Rightarrow> regmatch_t \<Rightarrow> error + Hash" where
  "freq_hash_inc rf h buf p v m0 m1 =
     (let (so, len) = (if rm_so m1 \<noteq> rm_eo m1 then (rm_so m1, rm_eo m1 - rm_so m1)
                       else (rm_so m0, rm_eo m0 - rm_so m0));
          start = int p + so;
          n = unat (word_of_int len :: size_t)
      in if start < 0 then Inl OutOfBounds
         else
           (case legal_chars buf (nat start) n of
              Inl e \<Rightarrow> Inl e
            | Inr False \<Rightarrow> Inr h
            | Inr True \<Rightarrow>
                if nat start + n < length buf then
                  (case c_string (buf[nat start + n := NUL]) (nat start) of
                     Inl e \<Rightarrow> Inl e
                   | Inr k \<Rightarrow> hash_inc rf h k v)
                else Inl OutOfBounds))"

text \<open>
  The variables of \<^verbatim>\<open>freq_scan\<close> that change in its loop, and the buffer. The counter
  \<^verbatim>\<open>matches\<close> is an integer without bound (the overflow of the C \<^verbatim>\<open>int\<close> is not
  modelled).
\<close>

record scan =
  s_hash :: "Hash option"
  s_buffer :: "char list"
  s_matches :: int
  s_i :: "64 word"

text \<open>One iteration of the loop either goes on or leaves \<^verbatim>\<open>freq_scan\<close> with a result.\<close>

datatype scan_step = Next scan | Return int scan

text \<open>The statement after the loop: \<^verbatim>\<open>if (hash == NULL) return matches; else return 0;\<close>\<close>

definition freq_scan_result :: "scan \<Rightarrow> int" where
  "freq_scan_result st = (if s_hash st = None then s_matches st else 0)"

definition freq_scan_step ::
  "nat \<Rightarrow> (string \<Rightarrow> regexec_result) \<Rightarrow> bool \<Rightarrow> double \<Rightarrow> scan \<Rightarrow> error + scan_step" where
  "freq_scan_step rf regexec overlap adjusted_multiplier st =
     (let q = unat (s_i st + of_nat MAX_WORD_LEN)
      in if q < length (s_buffer st) then
           (let holder = s_buffer st ! q;
                buf = (s_buffer st)[q := NUL]
            in case c_string buf (unat (s_i st)) of
                 Inl e \<Rightarrow> Inl e
               | Inr s \<Rightarrow>
                   (case regexec s of
                      Match m0 m1 \<Rightarrow>
                        (case (case s_hash st of
                                 None \<Rightarrow> Inr None
                               | Some h \<Rightarrow>
                                   map_sum id Some
                                     (freq_hash_inc rf h buf (unat (s_i st))
                                        adjusted_multiplier m0 m1)) of
                           Inl e \<Rightarrow> Inl e
                         | Inr hash' \<Rightarrow>
                             Inr (Next \<lparr>s_hash = hash',
                                        s_buffer = buf[q := holder],
                                        s_matches = s_matches st + 1,
                                        s_i = (if overlap
                                               then s_i st + word_of_int (rm_so m0 + 1)
                                               else s_i st + word_of_int (rm_eo m0))\<rparr>))
                    | REG_ESPACE \<Rightarrow> Inr (Return (- 4) (st\<lparr>s_buffer := buf\<rparr>))
                    | REG_NOMATCH \<Rightarrow> Inr (Return (freq_scan_result st) (st\<lparr>s_buffer := buf\<rparr>))))
         else Inl OutOfBounds)"

text \<open>
  The loop of \<^verbatim>\<open>freq_scan\<close>. It need not end (a match of length 0 without overlap does
  not advance \<open>i\<close>), so the first argument bounds the number of loop tests.
\<close>

fun freq_scan_loop ::
  "nat \<Rightarrow> nat \<Rightarrow> (string \<Rightarrow> regexec_result) \<Rightarrow> bool \<Rightarrow> double \<Rightarrow> size_t \<Rightarrow> scan
     \<Rightarrow> error + (int \<times> scan)" where
  "freq_scan_loop 0 rf regexec overlap adjusted_multiplier len st = Inl OutOfFuel"
| "freq_scan_loop (Suc n) rf regexec overlap adjusted_multiplier len st =
     (if s_i st < len then
        (case freq_scan_step rf regexec overlap adjusted_multiplier st of
           Inl e \<Rightarrow> Inl e
         | Inr (Return r st') \<Rightarrow> Inr (r, st')
         | Inr (Next st') \<Rightarrow> freq_scan_loop n rf regexec overlap adjusted_multiplier len st')
      else Inr (freq_scan_result st, st))"

definition freq_scan ::
  "nat \<Rightarrow> nat \<Rightarrow> Hash option \<Rightarrow> char list \<Rightarrow> size_t \<Rightarrow> (string \<Rightarrow> regexec_result) \<Rightarrow> bool \<Rightarrow> double
     \<Rightarrow> error + (int \<times> scan)" where
  "freq_scan n rf hash buffer len regexec overlap adjusted_multiplier =
     freq_scan_loop n rf regexec overlap adjusted_multiplier len
       \<lparr>s_hash = hash, s_buffer = buffer, s_matches = 0, s_i = 0\<rparr>"

subsection \<open>Reading and counting one file\<close>

text \<open>\<^verbatim>\<open>strchr(s, c)\<close> for a character \<open>c\<close> other than NUL: the first index of \<open>c\<close> in \<open>s\<close>.\<close>

fun strchr :: "string \<Rightarrow> char \<Rightarrow> nat option" where
  "strchr [] c = None"
| "strchr (x # xs) c = (if x = c then Some 0 else map_option Suc (strchr xs c))"

definition freq_overlap :: "string \<Rightarrow> bool" where
  "freq_overlap regex =
     (if strchr regex (CHR ''+'') \<noteq> None \<or> strchr regex (CHR ''*'') \<noteq> None then False
      else True)"

text \<open>
  \<^verbatim>\<open>freq_read_file\<close> returns its local \<^verbatim>\<open>matches\<close>, which is 0 and never assigned. The
  results of both calls of \<^verbatim>\<open>freq_scan\<close> are used for nothing but the quotient.
\<close>

definition freq_read_file ::
  "(string \<Rightarrow> 'r option) \<Rightarrow> ('r \<Rightarrow> string \<Rightarrow> regexec_result) \<Rightarrow>
   (string \<Rightarrow> char list option) \<Rightarrow> (nat \<Rightarrow> char) \<Rightarrow> nat \<Rightarrow> nat \<Rightarrow>
   Hash \<Rightarrow> string \<Rightarrow> string \<Rightarrow> int \<Rightarrow> error + (int \<times> Hash)" where
  "freq_read_file regcomp regexec fs uninit n rf hash filename regex multiplier =
     (let matches = 0;
          overlap = freq_overlap regex
      in case regcomp regex of
           None \<Rightarrow> Inr (- 2, hash)
         | Some compiled \<Rightarrow>
             (case read_file fs uninit filename of
                Inl e \<Rightarrow> Inl e
              | Inr (ret, buffer, len) \<Rightarrow>
                  if ret \<noteq> 0 then Inr (ret, hash)
                  else
                    (case filter_chars buffer of
                       Inl e \<Rightarrow> Inl e
                     | Inr buffer \<Rightarrow>
                         (case freq_scan n rf None buffer len (regexec compiled) overlap 1 of
                            Inl e \<Rightarrow> Inl e
                          | Inr (count, st) \<Rightarrow>
                              (case double_div_int multiplier count of
                                 Inl e \<Rightarrow> Inl e
                               | Inr adjusted_multiplier \<Rightarrow>
                                   (case freq_scan n rf (Some hash) (s_buffer st) len
                                           (regexec compiled) overlap adjusted_multiplier of
                                      Inl e \<Rightarrow> Inl e
                                    | Inr (r, st') \<Rightarrow>
                                        Inr (matches, case s_hash st' of
                                                        None \<Rightarrow> hash
                                                      | Some hash' \<Rightarrow> hash')))))))"

subsection \<open>Sequences of words\<close>

text \<open>
  The indices of \<^verbatim>\<open>find_n_words_for_file\<close> are natural numbers: each of them is
  incremented only while it is below the length of the buffer or the size of the array,
  so that none wraps around.
\<close>

text \<open>\<^verbatim>\<open>while (i < length && !isalnum(buffer[i])) ++i;\<close>\<close>

function skip_separators :: "char list \<Rightarrow> nat \<Rightarrow> nat \<Rightarrow> error + nat" where
  "skip_separators buffer len i =
     (if i < len then
        (if i < length buffer then
           (if \<not> isalnum (buffer ! i) then skip_separators buffer len (Suc i) else Inr i)
         else Inl OutOfBounds)
      else Inr i)"
  by pat_completeness auto
termination
  by (relation "measure (\<lambda>(buffer, len, i). len - i)") auto

declare skip_separators.simps [simp del]

text \<open>
  \<^verbatim>\<open>while (i < length && (isalnum(buffer[i]) || buffer[i] == '\'')) words[j++] = buffer[i++];\<close>
  The array \<^verbatim>\<open>words\<close> is the list of the \<open>j\<close> bytes written so far; \<open>cap\<close> is its size.
\<close>

function match_word ::
  "char list \<Rightarrow> nat \<Rightarrow> nat \<Rightarrow> nat \<Rightarrow> string \<Rightarrow> error + (nat \<times> string)" where
  "match_word buffer len cap i words =
     (if i < len then
        (if i < length buffer then
           (if isalnum (buffer ! i) \<or> buffer ! i = CHR 0x27 then
              (if length words < cap
               then match_word buffer len cap (Suc i) (words @ [buffer ! i])
               else Inl OutOfBounds)
            else Inr (i, words))
         else Inl OutOfBounds)
      else Inr (i, words))"
  by pat_completeness auto
termination
  by (relation "measure (\<lambda>(buffer, len, cap, i, words). len - i)") auto

declare match_word.simps [simp del]

text \<open>
  The loop \<^verbatim>\<open>for (k = 0; i < length && k < wordcount; ++k)\<close> on the variables
  \<open>(k, i, next_i, words)\<close>.
\<close>

function collect_words ::
  "char list \<Rightarrow> nat \<Rightarrow> nat \<Rightarrow> nat \<Rightarrow> nat \<times> nat \<times> nat \<times> string
     \<Rightarrow> error + (nat \<times> nat \<times> nat \<times> string)" where
  "collect_words buffer len wordcount cap (k, i, next_i, words) =
     (if i < len \<and> k < wordcount then
        (case skip_separators buffer len i of
           Inl e \<Rightarrow> Inl e
         | Inr i \<Rightarrow>
             if 0 < k \<and> \<not> length words < cap then Inl OutOfBounds
             else
               (let words = (if 0 < k then words @ [CHR '' ''] else words)
                in case (if i < len then
                           (if i < length buffer then
                              (if isalnum (buffer ! i) then
                                 (case match_word buffer len cap i words of
                                    Inl e \<Rightarrow> Inl e
                                  | Inr (i, words) \<Rightarrow>
                                      if buffer ! (i - 1) = CHR 0x27
                                      then Inr (i - 1, butlast words)
                                      else Inr (i, words))
                               else Inr (i, words))
                            else Inl OutOfBounds)
                         else Inr (i, words)) of
                     Inl e \<Rightarrow> Inl e
                   | Inr (i, words) \<Rightarrow>
                       collect_words buffer len wordcount cap
                         (Suc k, i, if k = 0 then i else next_i, words)))
      else Inr (k, i, next_i, words))"
  by pat_completeness auto
termination
  by (relation "measure (\<lambda>(buffer, len, wordcount, cap, k, i, next_i, words). wordcount - k)")
    auto

declare collect_words.simps [simp del]

text \<open>
  The loop \<^verbatim>\<open>while (i < length)\<close> of \<^verbatim>\<open>find_n_words_for_file\<close>; the first argument
  bounds the number of loop tests. The key given to \<^verbatim>\<open>hash_inc\<close> is the C string in
  \<^verbatim>\<open>words\<close> after \<^verbatim>\<open>words[j] = '\0'\<close>.
\<close>

fun find_n_words_loop ::
  "nat \<Rightarrow> nat \<Rightarrow> char list \<Rightarrow> nat \<Rightarrow> nat \<Rightarrow> nat \<Rightarrow> double \<Rightarrow> Hash \<Rightarrow> nat \<Rightarrow> nat
     \<Rightarrow> error + Hash" where
  "find_n_words_loop 0 rf buffer len wordcount cap multiplier hash i next_i = Inl OutOfFuel"
| "find_n_words_loop (Suc n) rf buffer len wordcount cap multiplier hash i next_i =
     (if i < len then
        (case collect_words buffer len wordcount cap (0, next_i, next_i, []) of
           Inl e \<Rightarrow> Inl e
         | Inr (k, i, next_i, words) \<Rightarrow>
             if k = wordcount then
               (if length words < cap then
                  (case hash_inc rf hash (takeWhile (\<lambda>c. c \<noteq> NUL) words) multiplier of
                     Inl e \<Rightarrow> Inl e
                   | Inr hash \<Rightarrow>
                       find_n_words_loop n rf buffer len wordcount cap multiplier hash i next_i)
                else Inl OutOfBounds)
             else Inr hash)
      else Inr hash)"

text \<open>
  \<^verbatim>\<open>char words[(MAX_WORD_LEN + 1) * wordcount]\<close> is undefined unless the size is
  positive.
\<close>

definition find_n_words_for_file ::
  "(string \<Rightarrow> char list option) \<Rightarrow> (nat \<Rightarrow> char) \<Rightarrow> nat \<Rightarrow> nat \<Rightarrow>
   Hash \<Rightarrow> string \<Rightarrow> int \<Rightarrow> int \<Rightarrow> error + (int \<times> Hash)" where
  "find_n_words_for_file fs uninit n rf hash filename wordcount multiplier =
     (case read_file fs uninit filename of
        Inl e \<Rightarrow> Inl e
      | Inr (ret, buffer, len) \<Rightarrow>
          if ret \<noteq> 0 then Inr (ret, hash)
          else
            (case filter_chars buffer of
               Inl e \<Rightarrow> Inl e
             | Inr buffer \<Rightarrow>
                 if wordcount \<le> 0 then Inl BadArraySize
                 else
                   (case find_n_words_loop n rf buffer (unat len) (nat wordcount)
                           ((MAX_WORD_LEN + 1) * nat wordcount) (real_of_int multiplier)
                           hash 0 0 of
                      Inl e \<Rightarrow> Inl e
                    | Inr hash' \<Rightarrow> Inr (0, hash'))))"

section \<open>Sequences of insertions\<close>

text \<open>A call of \<^verbatim>\<open>hash_put\<close> or of \<^verbatim>\<open>hash_inc\<close>, and a sequence of such calls on one map.\<close>

datatype insertion = Put string double | Inc string double

fun insertion_key :: "insertion \<Rightarrow> string" where
  "insertion_key (Put k v) = k"
| "insertion_key (Inc k v) = k"

fun insert_all :: "nat \<Rightarrow> Hash \<Rightarrow> insertion list \<Rightarrow> error + Hash" where
  "insert_all n h [] = Inr h"
| "insert_all n h (Put k v # ops) =
     (case hash_put n h k v of Inl e \<Rightarrow> Inl e | Inr h' \<Rightarrow> insert_all n h' ops)"
| "insert_all n h (Inc k v # ops) =
     (case hash_inc n h k v of Inl e \<Rightarrow> Inl e | Inr h' \<Rightarrow> insert_all n h' ops)"

section \<open>The map that a table represents\<close>

text \<open>The pairs of a bucket that are in use: the first \<^verbatim>\<open>length\<close> pairs of its array.\<close>

definition live_pairs :: "Bucket \<Rightarrow> Pair list" where
  "live_pairs b = (case pairs b of None \<Rightarrow> [] | Some ps \<Rightarrow> take (unat (b_length b)) ps)"

text \<open>
  A bucket at index \<open>i\<close> of a table of \<open>len\<close> slots is well formed: an array that exists
  has the 16 pairs of \<^verbatim>\<open>next_size(1)\<close>, the pairs in use have keys, these keys hash to
  \<open>i\<close> and are distinct.
\<close>

definition bucket_ok :: "size_t \<Rightarrow> nat \<Rightarrow> Bucket \<Rightarrow> bool" where
  "bucket_ok len i b \<longleftrightarrow>
     (case pairs b of
        None \<Rightarrow> b_length b = 0
      | Some ps \<Rightarrow> length ps = 16 \<and> unat (b_length b) \<le> 16)
     \<and> (\<forall>c \<in> set (map key (live_pairs b)).
           \<exists>k. c = Some k \<and> unat (hash_function k mod len) = i)
     \<and> distinct (map key (live_pairs b))"

definition hash_ok :: "Hash \<Rightarrow> bool" where
  "hash_ok h \<longleftrightarrow>
     length (buckets h) = unat (h_length h)
     \<and> (\<forall>i < length (buckets h). bucket_ok (h_length h) i (buckets h ! i))"

text \<open>The value that the table holds for a key: that of the first pair in use with this
  key in the bucket of the key.\<close>

definition pair_map :: "Pair list \<Rightarrow> string option \<Rightarrow> double option" where
  "pair_map ps = map_of (map (\<lambda>p. (key p, val p)) ps)"

definition bucket_map :: "Bucket \<Rightarrow> string option \<Rightarrow> double option" where
  "bucket_map b = pair_map (live_pairs b)"

definition lookup :: "Hash \<Rightarrow> string \<Rightarrow> double option" where
  "lookup h k =
     (if h_length h = 0 then None
      else bucket_map (buckets h ! unat (hash_function k mod h_length h)) (Some k))"

text \<open>
  A well-formed table whose count is the number of keys it holds, whose slot count is a
  power of two between \<open>2 ^ 4\<close> and \<open>2 ^ 57\<close>, and whose load is at most 0.75.
\<close>

definition table_inv :: "Hash \<Rightarrow> bool" where
  "table_inv h \<longleftrightarrow>
     hash_ok h \<and> finite (dom (lookup h)) \<and> unat (h_count h) = card (dom (lookup h))
     \<and> (\<exists>k. 4 \<le> k \<and> k \<le> 57 \<and> h_length h = 2 ^ k)
     \<and> unat (h_count h) * 100 \<le> unat (h_length h) * 75"

text \<open>What an insertion does to a map from keys to values.\<close>

fun insertion_effect :: "(string \<Rightarrow> double option) \<Rightarrow> insertion \<Rightarrow> string \<Rightarrow> double option" where
  "insertion_effect m (Put k v) = m(k \<mapsto> v)"
| "insertion_effect m (Inc k v) = m(k \<mapsto> (case m k of None \<Rightarrow> v | Some old \<Rightarrow> old + v))"

text \<open>The effect on a map of one read of the \<^verbatim>\<open>for\<close> statements of \<^verbatim>\<open>hash_resize\<close>.\<close>

fun reinsert_effect :: "error + Pair \<Rightarrow> (string \<Rightarrow> double option) \<Rightarrow> string \<Rightarrow> double option" where
  "reinsert_effect (Inl e) m = m"
| "reinsert_effect (Inr p) m = (case key p of None \<Rightarrow> m | Some k \<Rightarrow> m(k \<mapsto> val p))"

section \<open>Example inputs\<close>

text \<open>
  Seventeen distinct keys with the same value of \<^verbatim>\<open>hash_function\<close>: the blocks \<open>ab\<close> and
  \<open>bA\<close> contribute the same amount, \<open>33 * 97 + 98 = 33 * 98 + 65\<close>.
\<close>

definition colliding_keys :: "string list" where
  "colliding_keys =
     [''ababababab'', ''bAabababab'', ''abbAababab'', ''bAbAababab'',
      ''ababbAabab'', ''bAabbAabab'', ''abbAbAabab'', ''bAbAbAabab'',
      ''abababbAab'', ''bAababbAab'', ''abbAabbAab'', ''bAbAabbAab'',
      ''ababbAbAab'', ''bAabbAbAab'', ''abbAbAbAab'', ''bAbAbAbAab'',
      ''ababababbA'']"

text \<open>Thirteen distinct keys, one more than a table of 16 slots holds at load 0.75.\<close>

definition thirteen_keys :: "string list" where
  "thirteen_keys =
     [''a'', ''b'', ''c'', ''d'', ''e'', ''f'', ''g'', ''h'', ''i'', ''j'', ''k'', ''l'', ''m'']"

text \<open>Matchers: one that never matches, one that always runs out of memory, and one
  that matches the first byte of whatever it is given.\<close>

definition no_match :: "unit \<Rightarrow> string \<Rightarrow> regexec_result" where
  "no_match compiled s = REG_NOMATCH"

definition out_of_space :: "unit \<Rightarrow> string \<Rightarrow> regexec_result" where
  "out_of_space compiled s = REG_ESPACE"

definition match_first :: "unit \<Rightarrow> string \<Rightarrow> regexec_result" where
  "match_first compiled s = Match \<lparr>rm_so = 0, rm_eo = 1\<rparr> \<lparr>rm_so = - 1, rm_eo = - 1\<rparr>"

definition any_regex :: "string \<Rightarrow> unit option" where
  "any_regex regex = Some ()"

text \<open>A file system in which every name opens the same file, and fresh memory.\<close>

definition one_file :: "char list \<Rightarrow> string \<Rightarrow> char list option" where
  "one_file bytes filename = Some bytes"

definition fresh :: "nat \<Rightarrow> char" where
  "fresh p = CHR ''?''"

text \<open>A buffer of 1001 letters and the terminating NUL.\<close>

definition long_buffer :: "char list" where
  "long_buffer = replicate 1001 (CHR ''a'') @ [NUL]"



section \<open>The frequency map as a map from keys to values\<close>

subsection \<open>Searching a bucket\<close>

lemma unat_next_size_1: "unat (next_size 1) = 16"
  by (simp add: next_size_def RESIZE_MIN_def)

lemma find_key_result:
  assumes "len \<le> length ps" and "\<forall>i<len. key (ps ! i) \<noteq> None"
  shows "\<exists>r. find_key ps len j k = Inr r \<and>
           (case r of
              None \<Rightarrow> (\<forall>i. j \<le> i \<and> i < len \<longrightarrow> key (ps ! i) \<noteq> Some k)
            | Some i \<Rightarrow> j \<le> i \<and> i < len \<and> key (ps ! i) = Some k
                         \<and> (\<forall>i'. j \<le> i' \<and> i' < i \<longrightarrow> key (ps ! i') \<noteq> Some k))"
  using assms
proof (induction ps len j k rule: find_key.induct)
  case (1 ps len j k)
  show ?case
  proof (cases "j < len")
    case False
    then show ?thesis
      by (auto simp: find_key.simps)
  next
    case True
    then have inb: "j < length ps"
      using "1.prems" by simp
    obtain s where s: "key (ps ! j) = Some s"
      using True "1.prems" by auto
    show ?thesis
    proof (cases "s = k")
      case True
      then show ?thesis
        using \<open>j < len\<close> inb s by (auto simp: find_key.simps)
    next
      case False
      then obtain r where r: "find_key ps len (Suc j) k = Inr r"
        and rr: "(case r of
              None \<Rightarrow> (\<forall>i. Suc j \<le> i \<and> i < len \<longrightarrow> key (ps ! i) \<noteq> Some k)
            | Some i \<Rightarrow> Suc j \<le> i \<and> i < len \<and> key (ps ! i) = Some k
                         \<and> (\<forall>i'. Suc j \<le> i' \<and> i' < i \<longrightarrow> key (ps ! i') \<noteq> Some k))"
        using "1.IH" [OF True inb s False] "1.prems" by blast
      have "find_key ps len j k = Inr r"
        using \<open>j < len\<close> inb s False r by (subst find_key.simps) simp
      moreover have "(case r of
              None \<Rightarrow> (\<forall>i. j \<le> i \<and> i < len \<longrightarrow> key (ps ! i) \<noteq> Some k)
            | Some i \<Rightarrow> j \<le> i \<and> i < len \<and> key (ps ! i) = Some k
                         \<and> (\<forall>i'. j \<le> i' \<and> i' < i \<longrightarrow> key (ps ! i') \<noteq> Some k))"
      proof (cases r)
        case None
        have "key (ps ! i) \<noteq> Some k" if "j \<le> i" and "i < len" for i
        proof (cases "i = j")
          case True
          then show ?thesis
            using s False by simp
        next
          case False
          then have "Suc j \<le> i"
            using that by simp
          then show ?thesis
            using rr None that by simp
        qed
        then show ?thesis
          using None by simp
      next
        case (Some i)
        have "key (ps ! i') \<noteq> Some k" if "j \<le> i'" and "i' < i" for i'
        proof (cases "i' = j")
          case True
          then show ?thesis
            using s False by simp
        next
          case False
          then have "Suc j \<le> i'"
            using that by simp
          then show ?thesis
            using rr Some that by simp
        qed
        then show ?thesis
          using rr Some by simp
      qed
      ultimately show ?thesis
        by blast
    qed
  qed
qed

subsection \<open>The map of a list of pairs\<close>

lemma pair_map_None: "pair_map xs c = None \<longleftrightarrow> c \<notin> set (map key xs)"
  by (simp add: pair_map_def map_of_eq_None_iff image_image)

lemma pair_map_first:
  "j < length xs \<Longrightarrow> key (xs ! j) = c \<Longrightarrow> \<forall>i<j. key (xs ! i) \<noteq> c
     \<Longrightarrow> pair_map xs c = Some (val (xs ! j))"
proof (induction xs arbitrary: j)
  case Nil
  then show ?case by simp
next
  case (Cons x xs)
  show ?case
  proof (cases j)
    case 0
    then show ?thesis
      using Cons.prems by (simp add: pair_map_def)
  next
    case (Suc j')
    then have "key x \<noteq> c"
      using Cons.prems by auto
    moreover have "key (xs ! i) \<noteq> c" if "i < j'" for i
      using Cons.prems(3) [rule_format, of "Suc i"] that Suc by simp
    then have "pair_map xs c = Some (val (xs ! j'))"
      using Cons.IH [of j'] Cons.prems Suc by auto
    ultimately show ?thesis
      using Suc by (simp add: pair_map_def)
  qed
qed

lemma pair_map_update_val:
  "j < length xs \<Longrightarrow> \<forall>i<j. key (xs ! i) \<noteq> key (xs ! j)
     \<Longrightarrow> pair_map (xs[j := (xs ! j)\<lparr>val := u\<rparr>]) = (pair_map xs)(key (xs ! j) \<mapsto> u)"
proof (induction xs arbitrary: j)
  case Nil
  then show ?case by simp
next
  case (Cons x xs)
  show ?case
  proof (cases j)
    case 0
    then show ?thesis
      by (auto simp: pair_map_def fun_eq_iff)
  next
    case (Suc j')
    then have "key x \<noteq> key (xs ! j')"
      using Cons.prems by auto
    moreover have "key (xs ! i) \<noteq> key (xs ! j')" if "i < j'" for i
      using Cons.prems(2) [rule_format, of "Suc i"] that Suc by simp
    then have "pair_map (xs[j' := (xs ! j')\<lparr>val := u\<rparr>]) = (pair_map xs)(key (xs ! j') \<mapsto> u)"
      using Cons.IH [of j'] Cons.prems Suc by auto
    ultimately show ?thesis
      using Suc by (auto simp: pair_map_def fun_upd_twist)
  qed
qed

lemma pair_map_snoc:
  "key q \<notin> set (map key xs) \<Longrightarrow> pair_map (xs @ [q]) = (pair_map xs)(key q \<mapsto> val q)"
proof
  fix c
  assume "key q \<notin> set (map key xs)"
  then have "pair_map xs (key q) = None"
    by (simp add: pair_map_None)
  then show "pair_map (xs @ [q]) c = ((pair_map xs)(key q \<mapsto> val q)) c"
    by (auto simp: pair_map_def map_add_def split: option.splits)
qed

lemma map_key_update_val: "map key (xs[j := (xs ! j)\<lparr>val := u\<rparr>]) = map key xs"
  by (cases "j < length xs") (simp_all add: map_update list_update_same_conv list_update_beyond)

subsection \<open>Buckets\<close>

lemma live_pairs_new:
  "live_pairs \<lparr>pairs = Some ((replicate (unat (next_size 1)) zero_Pair)[0 := p]), b_length = 1\<rparr> = [p]"
proof -
  have "take (Suc 0) ((replicate n z)[0 := p]) = [p]" if "0 < n" for n and z :: Pair
    using that by (cases n) simp_all
  then show ?thesis
    by (simp add: live_pairs_def unat_next_size_1)
qed

lemma bucket_ok_new:
  "unat (hash_function k mod len) = i \<Longrightarrow>
   bucket_ok len i \<lparr>pairs = Some ((replicate (unat (next_size 1)) zero_Pair)
                                    [0 := \<lparr>key = Some k, val = v\<rparr>]), b_length = 1\<rparr>"
  unfolding bucket_ok_def live_pairs_new
  by (simp add: unat_next_size_1)

lemma bucket_map_new:
  "bucket_map \<lparr>pairs = Some ((replicate (unat (next_size 1)) zero_Pair)
                              [0 := \<lparr>key = Some k, val = v\<rparr>]), b_length = 1\<rparr>
     = [Some k \<mapsto> v]"
  unfolding bucket_map_def live_pairs_new
  by (simp add: pair_map_def)

lemma realloc_pairs_length: "length (realloc_pairs ps len n) = n"
  by (simp add: realloc_pairs_def)

lemma live_pairs_append:
  assumes "pairs b = Some ps" and "unat (b_length b) < length ps" and "length ps = 16"
  shows "live_pairs \<lparr>pairs = Some (ps[unat (b_length b) := q]), b_length = b_length b + 1\<rparr>
           = live_pairs b @ [q]"
proof -
  have "unat (b_length b + 1) = Suc (unat (b_length b))"
    using assms unat_add_lem [of "b_length b" 1] by simp
  then show ?thesis
    using assms by (simp add: live_pairs_def take_Suc_conv_app_nth)
qed

lemma live_pairs_update:
  assumes "pairs b = Some ps"
  shows "live_pairs (b\<lparr>pairs := Some (ps[j := q])\<rparr>) = (live_pairs b)[j := q]"
  using assms by (simp add: live_pairs_def take_update_swap)

lemma live_pairs_nth:
  "pairs b = Some ps \<Longrightarrow> j < unat (b_length b) \<Longrightarrow> live_pairs b ! j = ps ! j"
  by (simp add: live_pairs_def)

lemma live_pairs_length:
  "pairs b = Some ps \<Longrightarrow> unat (b_length b) \<le> length ps
     \<Longrightarrow> length (live_pairs b) = unat (b_length b)"
  by (simp add: live_pairs_def)

text \<open>What a successful \<open>store_pair\<close> does: it replaces the bucket of the key by a
  well-formed bucket whose map has the new value for the key.\<close>

lemma store_pair_bucket:
  assumes ok: "hash_ok h" and store: "store_pair upd h k v = Inr (h', added)"
  defines "i \<equiv> unat (hash_function k mod h_length h)"
  shows "\<exists>b'. h_length h \<noteq> 0 \<and> i < length (buckets h)
           \<and> h' = h\<lparr>buckets := (buckets h)[i := b']\<rparr>
           \<and> bucket_ok (h_length h) i b'
           \<and> bucket_map b' = (bucket_map (buckets h ! i))
                (Some k \<mapsto> (case bucket_map (buckets h ! i) (Some k) of
                               None \<Rightarrow> v | Some old \<Rightarrow> upd old))
           \<and> (added \<longleftrightarrow> bucket_map (buckets h ! i) (Some k) = None)"
proof -
  have len: "h_length h \<noteq> 0"
    using store by (auto simp: store_pair_def bucket_index_def split: if_splits)
  have inb: "i < length (buckets h)"
    using store
    by (auto simp: store_pair_def bucket_index_def i_def Let_def split: if_splits)
  have idx: "bucket_index h k = Inr i"
    using len inb by (simp add: bucket_index_def i_def Let_def)
  define b where "b = buckets h ! i"
  have bok: "bucket_ok (h_length h) i b"
    using ok inb by (simp add: hash_ok_def b_def)
  show ?thesis
  proof (cases "pairs b")
    case None
    let ?b' = "\<lparr>pairs = Some ((replicate (unat (next_size 1)) zero_Pair)
                                [0 := \<lparr>key = Some k, val = v\<rparr>]), b_length = 1\<rparr>"
    have "store_pair upd h k v = Inr (h\<lparr>buckets := (buckets h)[i := ?b']\<rparr>, True)"
      using idx None by (simp add: store_pair_def b_def)
    then have h': "h' = h\<lparr>buckets := (buckets h)[i := ?b']\<rparr>" and added: "added"
      using store by simp_all
    have "live_pairs b = []"
      using None by (simp add: live_pairs_def)
    then have empty: "bucket_map b = Map.empty"
      by (simp add: bucket_map_def pair_map_def)
    have "bucket_ok (h_length h) i ?b'"
      by (rule bucket_ok_new) (simp add: i_def)
    moreover have "bucket_map ?b' = (bucket_map b)(Some k \<mapsto> v)"
      using empty by (simp add: bucket_map_new)
    ultimately show ?thesis
      using len inb h' added empty unfolding b_def [symmetric]
      by (intro exI [of _ ?b']) simp
  next
    case (Some ps)
    have cap: "length ps = 16" and used: "unat (b_length b) \<le> 16"
      using bok Some by (simp_all add: bucket_ok_def)
    have live: "live_pairs b = take (unat (b_length b)) ps"
      using Some by (simp add: live_pairs_def)
    have keys: "\<forall>c \<in> set (map key (live_pairs b)).
                  \<exists>k. c = Some k \<and> unat (hash_function k mod h_length h) = i"
      and dist: "distinct (map key (live_pairs b))"
      using bok by (simp_all add: bucket_ok_def)
    have nonnull: "\<forall>j<unat (b_length b). key (ps ! j) \<noteq> None"
    proof (intro allI impI)
      fix j
      assume j: "j < unat (b_length b)"
      then have "ps ! j \<in> set (take (unat (b_length b)) ps)"
        using cap used by (auto simp: in_set_conv_nth intro!: exI [of _ j])
      then have "key (ps ! j) \<in> set (map key (live_pairs b))"
        using live by simp
      then show "key (ps ! j) \<noteq> None"
        using keys by auto
    qed
    obtain r where r: "find_key ps (unat (b_length b)) 0 k = Inr r"
      and rr: "(case r of
              None \<Rightarrow> (\<forall>j. 0 \<le> j \<and> j < unat (b_length b) \<longrightarrow> key (ps ! j) \<noteq> Some k)
            | Some j \<Rightarrow> 0 \<le> j \<and> j < unat (b_length b) \<and> key (ps ! j) = Some k
                         \<and> (\<forall>j'. 0 \<le> j' \<and> j' < j \<longrightarrow> key (ps ! j') \<noteq> Some k))"
      using find_key_result [of "unat (b_length b)" ps 0 k] cap used nonnull by auto
    show ?thesis
    proof (cases r)
      case (Some j)
      then have j: "j < unat (b_length b)" and kj: "key (ps ! j) = Some k"
        and first: "\<forall>j'<j. key (ps ! j') \<noteq> Some k"
        using rr by simp_all
      let ?q = "(ps ! j)\<lparr>val := upd (val (ps ! j))\<rparr>"
      let ?b' = "b\<lparr>pairs := Some (ps[j := ?q])\<rparr>"
      have "store_pair upd h k v = Inr (h\<lparr>buckets := (buckets h)[i := ?b']\<rparr>, False)"
        using idx \<open>pairs b = Some ps\<close> r Some by (simp add: store_pair_def b_def)
      then have h': "h' = h\<lparr>buckets := (buckets h)[i := ?b']\<rparr>" and added: "\<not> added"
        using store by simp_all
      have jl: "j < length (live_pairs b)" and nthj: "live_pairs b ! j = ps ! j"
        using j live cap used by simp_all
      have live': "live_pairs ?b' = (live_pairs b)[j := (live_pairs b ! j)\<lparr>val := upd (val (ps ! j))\<rparr>]"
        using \<open>pairs b = Some ps\<close> nthj by (simp add: live_pairs_update)
      have keys': "map key (live_pairs ?b') = map key (live_pairs b)"
        unfolding live' by (rule map_key_update_val)
      have "bucket_ok (h_length h) i ?b'"
        using bok \<open>pairs b = Some ps\<close> keys' by (simp add: bucket_ok_def)
      moreover have old: "bucket_map b (Some k) = Some (val (ps ! j))"
        unfolding bucket_map_def
        using pair_map_first [of j "live_pairs b" "Some k"] jl nthj kj first live j
        by auto
      moreover have "bucket_map ?b' = (bucket_map b)(Some k \<mapsto> upd (val (ps ! j)))"
        unfolding bucket_map_def live'
        using pair_map_update_val [of j "live_pairs b" "upd (val (ps ! j))"] jl nthj kj first live j
        by auto
      ultimately show ?thesis
        using len inb h' added unfolding b_def [symmetric]
        by (intro exI [of _ ?b']) simp
    next
      case None
      then have absent: "\<forall>j<unat (b_length b). key (ps ! j) \<noteq> Some k"
        using rr by simp
      have fresh: "Some k \<notin> set (map key (live_pairs b))"
      proof
        assume "Some k \<in> set (map key (live_pairs b))"
        then obtain j where "j < unat (b_length b)" and "key (ps ! j) = Some k"
          using live cap used by (auto simp: in_set_conv_nth)
        then show False
          using absent by blast
      qed
      have nogrow: "\<not> resize_p (b_length b)"
      proof
        assume "resize_p (b_length b)"
        then have "store_pair upd h k v = Inl OutOfBounds"
          using idx \<open>pairs b = Some ps\<close> r None
          by (simp add: store_pair_def b_def [symmetric] Let_def realloc_pairs_length)
        then show False
          using store by simp
      qed
      let ?q = "\<lparr>key = Some k, val = v\<rparr>"
      let ?b' = "\<lparr>pairs = Some (ps[unat (b_length b) := ?q]), b_length = b_length b + 1\<rparr>"
      have room: "unat (b_length b) < length ps"
      proof (rule ccontr)
        assume "\<not> unat (b_length b) < length ps"
        then have "store_pair upd h k v = Inl OutOfBounds"
          using idx \<open>pairs b = Some ps\<close> r None nogrow
          by (simp add: store_pair_def b_def [symmetric] Let_def)
        then show False
          using store by simp
      qed
      have "store_pair upd h k v = Inr (h\<lparr>buckets := (buckets h)[i := ?b']\<rparr>, True)"
        using idx \<open>pairs b = Some ps\<close> r None nogrow room
        by (simp add: store_pair_def b_def [symmetric] Let_def)
      then have h': "h' = h\<lparr>buckets := (buckets h)[i := ?b']\<rparr>" and added: "added"
        using store by simp_all
      have live': "live_pairs ?b' = live_pairs b @ [?q]"
        using live_pairs_append [OF \<open>pairs b = Some ps\<close> room cap] .
      have "unat (b_length b + 1) = Suc (unat (b_length b))"
        using room cap unat_add_lem [of "b_length b" 1] by simp
      then have "bucket_ok (h_length h) i ?b'"
        using keys dist fresh room cap unfolding bucket_ok_def live'
        by (simp add: i_def)
      moreover have old: "bucket_map b (Some k) = None"
        using fresh by (simp add: bucket_map_def pair_map_None)
      moreover have "bucket_map ?b' = (bucket_map b)(Some k \<mapsto> v)"
        unfolding bucket_map_def live'
        using pair_map_snoc [of ?q "live_pairs b"] fresh by simp
      ultimately show ?thesis
        using len inb h' added unfolding b_def [symmetric]
        by (intro exI [of _ ?b']) simp
    qed
  qed
qed

subsection \<open>Tables\<close>

lemma hash_ok_count [simp]: "hash_ok (h\<lparr>h_count := c\<rparr>) = hash_ok h"
  by (simp add: hash_ok_def)

lemma lookup_count [simp]: "lookup (h\<lparr>h_count := c\<rparr>) = lookup h"
  by (rule ext) (simp add: lookup_def)

lemma bucket_index_less:
  assumes "hash_ok h" and "h_length h \<noteq> 0"
  shows "unat (hash_function k mod h_length h) < length (buckets h)"
proof -
  have "hash_function k mod h_length h < h_length h"
    using assms(2) by (simp add: word_mod_less_divisor word_neq_0_conv)
  then show ?thesis
    using assms(1) by (simp add: hash_ok_def word_less_nat_alt)
qed

lemma store_pair_ok:
  assumes ok: "hash_ok h" and store: "store_pair upd h k v = Inr (h', added)"
  shows "hash_ok h'" and "h_length h' = h_length h" and "h_count h' = h_count h"
    and "h_length h \<noteq> 0"
    and "lookup h' = (lookup h)(k \<mapsto> (case lookup h k of None \<Rightarrow> v | Some old \<Rightarrow> upd old))"
    and "added \<longleftrightarrow> lookup h k = None"
proof -
  define i where "i = unat (hash_function k mod h_length h)"
  obtain b' where len: "h_length h \<noteq> 0" and inb: "i < length (buckets h)"
    and h': "h' = h\<lparr>buckets := (buckets h)[i := b']\<rparr>"
    and bok: "bucket_ok (h_length h) i b'"
    and bmap: "bucket_map b' = (bucket_map (buckets h ! i))
                (Some k \<mapsto> (case bucket_map (buckets h ! i) (Some k) of
                               None \<Rightarrow> v | Some old \<Rightarrow> upd old))"
    and added: "added \<longleftrightarrow> bucket_map (buckets h ! i) (Some k) = None"
    using store_pair_bucket [OF ok store] unfolding i_def by blast
  show "h_length h \<noteq> 0"
    by (rule len)
  show "h_length h' = h_length h" and "h_count h' = h_count h"
    using h' by simp_all
  show "hash_ok h'"
    using ok inb bok unfolding hash_ok_def h'
    by (auto simp: nth_list_update)
  have here: "lookup h k = bucket_map (buckets h ! i) (Some k)"
    using len by (simp add: lookup_def i_def)
  show "added \<longleftrightarrow> lookup h k = None"
    using added here by simp
  show "lookup h' = (lookup h)(k \<mapsto> (case lookup h k of None \<Rightarrow> v | Some old \<Rightarrow> upd old))"
  proof
    fix k'
    show "lookup h' k' = ((lookup h)(k \<mapsto> (case lookup h k of None \<Rightarrow> v | Some old \<Rightarrow> upd old))) k'"
    proof (cases "unat (hash_function k' mod h_length h) = i")
      case True
      then have "lookup h' k' = bucket_map b' (Some k')"
        using len inb by (simp add: lookup_def h')
      moreover have "lookup h k' = bucket_map (buckets h ! i) (Some k')"
        using len True by (simp add: lookup_def)
      ultimately show ?thesis
        using bmap here by simp
    next
      case False
      then have "k' \<noteq> k"
        by (auto simp: i_def)
      moreover have "lookup h' k' = lookup h k'"
        using len False by (simp add: lookup_def h')
      ultimately show ?thesis
        by simp
    qed
  qed
qed

lemma hash_ok_init: "hash_ok (hash_init_capacity c)"
  by (simp add: hash_ok_def hash_init_capacity_def bucket_ok_def zero_Bucket_def live_pairs_def)

lemma lookup_init: "lookup (hash_init_capacity c) = Map.empty"
proof
  fix k
  show "lookup (hash_init_capacity c) k = None"
  proof (cases "next_size c = 0")
    case True
    then show ?thesis
      by (simp add: lookup_def hash_init_capacity_def)
  next
    case False
    then have "hash_function k mod next_size c < next_size c"
      by (simp add: word_mod_less_divisor word_neq_0_conv)
    then have "unat (hash_function k mod next_size c) < unat (next_size c)"
      by (simp add: word_less_nat_alt)
    then show ?thesis
      by (simp add: lookup_def hash_init_capacity_def bucket_map_def pair_map_def
          zero_Bucket_def live_pairs_def)
  qed
qed

subsection \<open>Rehashing\<close>

lemma bucket_reads_ok:
  assumes "bucket_ok len i b"
  shows "bucket_reads b = map Inr (live_pairs b)"
proof (cases "pairs b")
  case None
  then show ?thesis
    using assms by (simp add: bucket_reads_def bucket_ok_def live_pairs_def)
next
  case (Some ps)
  then have "unat (b_length b) \<le> length ps"
    using assms by (simp add: bucket_ok_def)
  then have "map (\<lambda>j. if j < length ps then Inr (ps ! j) else Inl OutOfBounds) [0..<unat (b_length b)]
               = map Inr (take (unat (b_length b)) ps)"
    by (auto simp: list_eq_iff_nth_eq)
  then show ?thesis
    using Some by (simp add: bucket_reads_def live_pairs_def)
qed

lemma table_reads_ok:
  assumes "hash_ok h"
  shows "table_reads h = map Inr (concat (map live_pairs (buckets h)))"
proof -
  have "map (\<lambda>i. if i < length (buckets h) then bucket_reads (buckets h ! i) else [Inl OutOfBounds])
            [0..<length (buckets h)]
          = map (\<lambda>b. map Inr (live_pairs b)) (buckets h)"
    using assms by (auto simp: list_eq_iff_nth_eq hash_ok_def bucket_reads_ok)
  then show ?thesis
    using assms by (simp add: table_reads_def hash_ok_def map_concat comp_def)
qed

lemma fold_reinsert_bucket:
  assumes "distinct (map key xs)"
  shows "fold reinsert_effect (map Inr xs) m k
           = (case pair_map xs (Some k) of None \<Rightarrow> m k | Some v \<Rightarrow> Some v)"
  using assms
proof (induction xs arbitrary: m)
  case Nil
  then show ?case
    by (simp add: pair_map_def)
next
  case (Cons p xs)
  have IH: "fold reinsert_effect (map Inr xs) (reinsert_effect (Inr p) m) k
              = (case pair_map xs (Some k) of
                   None \<Rightarrow> reinsert_effect (Inr p) m k | Some v \<Rightarrow> Some v)"
    by (rule Cons.IH) (use Cons.prems in simp)
  show ?case
  proof (cases "key p = Some k")
    case True
    then have "pair_map xs (Some k) = None"
      using Cons.prems by (auto simp: pair_map_None)
    moreover have "reinsert_effect (Inr p) m k = Some (val p)"
      using True by simp
    moreover have "pair_map (p # xs) (Some k) = Some (val p)"
      using True by (simp add: pair_map_def)
    ultimately show ?thesis
      using IH by (simp del: reinsert_effect.simps split: option.splits)
  next
    case False
    then have "reinsert_effect (Inr p) m k = m k"
      by (cases "key p") auto
    moreover have "pair_map (p # xs) (Some k) = pair_map xs (Some k)"
      using False by (auto simp: pair_map_def)
    ultimately show ?thesis
      using IH by (simp del: reinsert_effect.simps split: option.splits)
  qed
qed

lemma fold_reinsert_buckets:
  assumes "\<forall>i<length bs. bucket_ok len (off + i) (bs ! i)"
  shows "fold reinsert_effect (map Inr (concat (map live_pairs bs))) m k
           = (if off \<le> unat (hash_function k mod len)
                 \<and> unat (hash_function k mod len) < off + length bs
              then (case bucket_map (bs ! (unat (hash_function k mod len) - off)) (Some k) of
                      None \<Rightarrow> m k | Some v \<Rightarrow> Some v)
              else m k)"
  using assms
proof (induction bs arbitrary: off m)
  case Nil
  then show ?case by auto
next
  case (Cons b bs)
  let ?i = "unat (hash_function k mod len)"
  let ?m1 = "fold reinsert_effect (map Inr (live_pairs b)) m"
  have bok: "bucket_ok len off b"
    using Cons.prems by (auto dest: spec [of _ 0])
  have rest: "\<forall>i<length bs. bucket_ok len (Suc off + i) (bs ! i)"
  proof (intro allI impI)
    fix i
    assume "i < length bs"
    then show "bucket_ok len (Suc off + i) (bs ! i)"
      using Cons.prems [rule_format, of "Suc i"] by simp
  qed
  have m1: "?m1 k = (case bucket_map b (Some k) of None \<Rightarrow> m k | Some v \<Rightarrow> Some v)"
    using bok by (simp add: fold_reinsert_bucket bucket_ok_def bucket_map_def)
  have other: "bucket_map b (Some k) = None" if "?i \<noteq> off"
    using bok that by (auto simp: bucket_ok_def bucket_map_def pair_map_None)
  have "fold reinsert_effect (map Inr (concat (map live_pairs (b # bs)))) m k
          = fold reinsert_effect (map Inr (concat (map live_pairs bs))) ?m1 k"
    by simp
  also have "\<dots> = (if Suc off \<le> ?i \<and> ?i < Suc off + length bs
              then (case bucket_map (bs ! (?i - Suc off)) (Some k) of
                      None \<Rightarrow> ?m1 k | Some v \<Rightarrow> Some v)
              else ?m1 k)"
    using Cons.IH [OF rest] by simp
  also have "\<dots> = (if off \<le> ?i \<and> ?i < off + length (b # bs)
              then (case bucket_map ((b # bs) ! (?i - off)) (Some k) of
                      None \<Rightarrow> m k | Some v \<Rightarrow> Some v)
              else m k)"
  proof (cases "?i = off")
    case True
    then show ?thesis
      using m1 by simp
  next
    case False
    then have "?m1 k = m k"
      using m1 other by simp
    moreover have "(b # bs) ! (?i - off) = bs ! (?i - Suc off)" if "off \<le> ?i"
    proof -
      have "?i - off = Suc (?i - Suc off)"
        using that False by simp
      then show ?thesis
        by simp
    qed
    ultimately show ?thesis
      using False by (auto split: option.splits)
  qed
  finally show ?case .
qed

lemma fold_table_reads:
  assumes "hash_ok h"
  shows "fold reinsert_effect (table_reads h) Map.empty = lookup h"
proof
  fix k
  show "fold reinsert_effect (table_reads h) Map.empty k = lookup h k"
  proof (cases "h_length h = 0")
    case True
    then have "buckets h = []"
      using assms by (simp add: hash_ok_def)
    then show ?thesis
      using True assms by (simp add: table_reads_ok lookup_def)
  next
    case False
    have "\<forall>i<length (buckets h). bucket_ok (h_length h) (0 + i) (buckets h ! i)"
      using assms by (simp add: hash_ok_def)
    then show ?thesis
      using fold_reinsert_buckets [of "buckets h" "h_length h" 0 Map.empty k]
        bucket_index_less [OF assms False, of k] False assms
      by (simp add: table_reads_ok lookup_def split: option.splits)
  qed
qed

subsection \<open>Insertion\<close>






subsection \<open>Sequences of insertions and lookups\<close>


lemma hash_init_ok: "hash_ok hash_init" "h_length hash_init \<noteq> 0" "lookup hash_init = Map.empty"
  by (simp_all add: hash_init_def hash_ok_init lookup_init)
    (simp add: hash_init_capacity_def next_size_def DEFAULT_CAPACITY_def RESIZE_MIN_def)



lemma bucket_live_keys:
  assumes "bucket_ok len i b" and "pairs b = Some ps"
  shows "unat (b_length b) \<le> length ps" and "\<forall>j<unat (b_length b). key (ps ! j) \<noteq> None"
proof -
  show le: "unat (b_length b) \<le> length ps"
    using assms by (simp add: bucket_ok_def)
  show "\<forall>j<unat (b_length b). key (ps ! j) \<noteq> None"
  proof (intro allI impI)
    fix j
    assume "j < unat (b_length b)"
    then have "ps ! j \<in> set (take (unat (b_length b)) ps)"
      using le by (auto simp: in_set_conv_nth intro!: exI [of _ j])
    then have "key (ps ! j) \<in> set (map key (live_pairs b))"
      using assms(2) by (simp add: live_pairs_def)
    then show "key (ps ! j) \<noteq> None"
      using assms(1) by (auto simp: bucket_ok_def)
  qed
qed




subsection \<open>Conversion to an integer\<close>





subsection \<open>The result of a lookup\<close>



subsection \<open>Values that are not integers\<close>



subsection \<open>Sizes of tables\<close>

text \<open>
  The shifts of \<^verbatim>\<open>next_power_of_2\<close> extend a block of one-bits downwards, doubling its
  length each time.
\<close>

lemma fill_step:
  fixes k t :: nat
  assumes "k < 64"
  shows "(mask (Suc k) AND NOT (mask (Suc k - t)) :: 64 word)
           OR drop_bit t (mask (Suc k) AND NOT (mask (Suc k - t)))
         = mask (Suc k) AND NOT (mask (Suc k - 2 * t))"
proof (rule bit_eqI)
  fix n
  assume "possible_bit TYPE(64 word) n"
  then have n: "n < 64"
    by (simp add: possible_bit_word)
  show "bit ((mask (Suc k) AND NOT (mask (Suc k - t)) :: 64 word)
           OR drop_bit t (mask (Suc k) AND NOT (mask (Suc k - t)))) n
        = bit (mask (Suc k) AND NOT (mask (Suc k - 2 * t)) :: 64 word) n"
    using n assms
    by (auto simp: bit_or_iff bit_and_iff bit_not_iff bit_mask_iff bit_drop_bit_eq possible_bit_word)
qed

lemma power_as_block:
  assumes "k < 64"
  shows "(2 ^ k :: 64 word) = mask (Suc k) AND NOT (mask (Suc k - 1))"
proof (rule bit_eqI)
  fix n
  assume "possible_bit TYPE(64 word) n"
  then have n: "n < 64"
    by (simp add: possible_bit_word)
  show "bit (2 ^ k :: 64 word) n = bit (mask (Suc k) AND NOT (mask (Suc k - 1)) :: 64 word) n"
    using n assms
    by (auto simp: bit_and_iff bit_not_iff bit_mask_iff bit_exp_iff possible_bit_word)
qed

lemma next_power_of_2_power:
  assumes "k < 64"
  shows "next_power_of_2 (2 ^ k) = 2 ^ Suc k"
proof -
  have "next_power_of_2 (2 ^ k) = (mask (Suc k) AND NOT (mask (Suc k - 64))) + 1"
    unfolding next_power_of_2_def Let_def power_as_block [OF assms]
    using fill_step [OF assms, of 1] fill_step [OF assms, of 2] fill_step [OF assms, of 4]
      fill_step [OF assms, of 8] fill_step [OF assms, of 16] fill_step [OF assms, of 32]
    by simp
  also have "\<dots> = mask (Suc k) + 1"
    using assms by simp
  also have "\<dots> = 2 ^ Suc k"
    by (simp add: mask_eq_exp_minus_1)
  finally show ?thesis .
qed

lemma unat_power2: "k < 64 \<Longrightarrow> unat (2 ^ k :: 64 word) = 2 ^ k"
proof -
  assume k: "k < 64"
  have "(2 ^ k :: 64 word) = of_nat (2 ^ k)"
    by simp
  then have "unat (2 ^ k :: 64 word) = 2 ^ k mod 2 ^ 64"
    by (simp only: unat_of_nat) simp
  moreover have "(2 :: nat) ^ k < 2 ^ 64"
    using k by (simp only: power_strict_increasing_iff)
  ultimately show ?thesis
    by simp
qed

lemma next_size_power:
  assumes "4 \<le> k" and "k < 64"
  shows "next_size (2 ^ k) = 2 ^ Suc k"
proof -
  have "(2 :: nat) ^ 4 \<le> 2 ^ k"
    using assms(1) by (simp only: power_increasing_iff)
  then have "\<not> (2 ^ k :: 64 word) < RESIZE_MIN"
    using assms(2) by (simp add: RESIZE_MIN_def word_less_nat_alt unat_power2)
  then show ?thesis
    using assms(2) by (simp add: next_size_def next_power_of_2_power)
qed

lemma new_table_length:
  assumes "4 \<le> k" and "k \<le> 57"
  shows "h_length (hash_init_capacity (sizeof_Bucket * next_size (2 ^ k))) = 2 ^ (k + 6)"
proof -
  have "sizeof_Bucket * next_size (2 ^ k) = 2 ^ (k + 5)"
    using assms by (simp add: next_size_power sizeof_Bucket_def power_add)
  then show ?thesis
    using assms next_size_power [of "k + 5"] by (simp add: hash_init_capacity_def ac_simps)
qed

subsection \<open>Tables with a count\<close>

lemma store_pair_error:
  assumes "hash_ok h" and "store_pair upd h k v = Inl e"
  shows "e = OutOfBounds \<or> h_length h = 0"
proof (cases "h_length h = 0")
  case True
  then show ?thesis by simp
next
  case False
  let ?i = "unat (hash_function k mod h_length h)"
  let ?b = "buckets h ! ?i"
  have inb: "?i < length (buckets h)"
    using bucket_index_less [OF assms(1) False] .
  then have idx: "bucket_index h k = Inr ?i"
    using False by (simp add: bucket_index_def)
  have bok: "bucket_ok (h_length h) ?i ?b"
    using assms(1) inb by (simp add: hash_ok_def)
  show ?thesis
  proof (cases "pairs ?b")
    case None
    then show ?thesis
      using assms(2) idx by (simp add: store_pair_def)
  next
    case (Some ps)
    obtain r where r: "find_key ps (unat (b_length ?b)) 0 k = Inr r"
      using find_key_result [OF bucket_live_keys [OF bok Some], of 0 k] by blast
    show ?thesis
    proof (cases r)
      case None
      then show ?thesis
        using assms(2) idx Some r
        by (auto simp: store_pair_def Let_def split: if_splits)
    next
      case (Some j)
      then show ?thesis
        using assms(2) idx \<open>pairs ?b = Some ps\<close> r by (simp add: store_pair_def)
    qed
  qed
qed

lemma table_inv_no_overflow:
  assumes "table_inv h"
  shows "unat (h_length h) \<le> 2 ^ 57" and "unat (h_length h) * 75 < 2 ^ 64"
    and "unat (h_count h) * 100 < 2 ^ 64" and "unat (h_count h) + 1 < 2 ^ 64"
    and "16 \<le> unat (h_length h)" and "h_length h \<noteq> 0"
proof -
  obtain k where k: "4 \<le> k" "k \<le> 57" "h_length h = 2 ^ k"
    using assms by (auto simp: table_inv_def)
  have len: "unat (h_length h) = 2 ^ k"
    using k by (simp add: unat_power2)
  have "(2 :: nat) ^ k \<le> 2 ^ 57"
    using k(2) by (simp only: power_increasing_iff)
  then show le: "unat (h_length h) \<le> 2 ^ 57"
    using len by simp
  then show "unat (h_length h) * 75 < 2 ^ 64"
    by simp
  then show "unat (h_count h) * 100 < 2 ^ 64"
    using assms by (simp add: table_inv_def)
  then show "unat (h_count h) + 1 < 2 ^ 64"
    by simp
  have "(2 :: nat) ^ 4 \<le> 2 ^ k"
    using k(1) by (simp only: power_increasing_iff)
  then show "16 \<le> unat (h_length h)"
    using len by simp
  then show "h_length h \<noteq> 0"
    by auto
qed

lemma dom_reinsert_effect: "dom m \<subseteq> dom (fold reinsert_effect rs m)"
proof (induction rs arbitrary: m)
  case Nil
  then show ?case by simp
next
  case (Cons r rs)
  have "dom m \<subseteq> dom (reinsert_effect r m)"
    by (cases r) (auto split: option.splits)
  then show ?case
    using Cons [of "reinsert_effect r m"] by auto
qed

lemma finite_reinsert_effect: "finite (dom m) \<Longrightarrow> finite (dom (fold reinsert_effect rs m))"
proof (induction rs arbitrary: m)
  case Nil
  then show ?case by simp
next
  case (Cons r rs)
  have "finite (dom (reinsert_effect r m))"
    using Cons.prems by (cases r) (auto split: option.splits)
  then show ?case
    using Cons.IH [of "reinsert_effect r m"] by simp
qed

text \<open>An insertion that leaves the load at most 0.75 does not rehash.\<close>

lemma store_pair_count:
  assumes inv: "table_inv h" and store: "store_pair upd h k v = Inr (h1, added)"
  shows "hash_ok h1" and "h_length h1 = h_length h" and "finite (dom (lookup h1))"
    and "dom (lookup h1) = insert k (dom (lookup h))"
    and "\<not> added \<Longrightarrow> unat (h_count h1) = card (dom (lookup h1))"
    and "added \<Longrightarrow> unat (h_count h1 + 1) = card (dom (lookup h1))"
    and "added \<Longrightarrow> unat (h_count h1 + 1) = Suc (unat (h_count h))"
proof -
  have ok: "hash_ok h" and fin: "finite (dom (lookup h))"
    and cnt: "unat (h_count h) = card (dom (lookup h))"
    using inv by (simp_all add: table_inv_def)
  note facts = store_pair_ok [OF ok store]
  show "hash_ok h1" and "h_length h1 = h_length h"
    using facts by simp_all
  show d: "dom (lookup h1) = insert k (dom (lookup h))"
    using facts(5) by simp
  then show "finite (dom (lookup h1))"
    using fin by simp
  show "unat (h_count h1) = card (dom (lookup h1))" if "\<not> added"
  proof -
    have "k \<in> dom (lookup h)"
      using that facts(6) by auto
    then show ?thesis
      using d cnt facts(3) by (simp add: insert_absorb)
  qed
  have suc: "unat (h_count h1 + 1) = Suc (unat (h_count h))"
    using facts(3) table_inv_no_overflow(4) [OF inv] unat_add_lem [of "h_count h" 1] by simp
  show "unat (h_count h1 + 1) = Suc (unat (h_count h))" if added
    by (rule suc)
  show "unat (h_count h1 + 1) = card (dom (lookup h1))" if added
  proof -
    have "k \<notin> dom (lookup h)"
      using that facts(6) by auto
    then show ?thesis
      using d cnt fin suc by simp
  qed
qed

lemma load_compare:
  assumes "unat c * 100 < 2 ^ 64" and "unat (l :: 64 word) * 75 < 2 ^ 64"
  shows "l * 75 < (c :: 64 word) * 100 \<longleftrightarrow> unat l * 75 < unat c * 100"
proof -
  have "unat (c * 100) = unat c * 100"
    using assms(1) unat_mult_lem [of c 100] by simp
  moreover have "unat (l * 75) = unat l * 75"
    using assms(2) unat_mult_lem [of l 75] by simp
  ultimately show ?thesis
    by (simp add: word_less_nat_alt)
qed

lemma hash_put_room:
  assumes inv: "table_inv res"
    and room: "card (insert k (dom (lookup res))) * 100 \<le> unat (h_length res) * 75"
  shows "hash_put m res k v = Inl OutOfBounds
         \<or> (\<exists>res'. hash_put m res k v = Inr res' \<and> table_inv res'
               \<and> h_length res' = h_length res \<and> lookup res' = (lookup res)(k \<mapsto> v))"
proof (cases "store_pair (\<lambda>old. v) res k v")
  case (Inl e)
  then have "e = OutOfBounds"
    using store_pair_error [of res "\<lambda>old. v" k v e] inv table_inv_no_overflow(6) [OF inv]
    by (auto simp: table_inv_def)
  then show ?thesis
    using Inl by (simp add: hash_put.simps)
next
  case (Inr x)
  obtain h1 added where x: "x = (h1, added)"
    by (cases x)
  note store = Inr [unfolded x]
  note facts = store_pair_count [OF inv store]
  have l1: "lookup h1 = (lookup res)(k \<mapsto> v)"
    using store_pair_ok(5) [of res "\<lambda>old. v" k v h1 added] store inv
    by (simp add: table_inv_def split: option.splits)
  obtain j where j: "4 \<le> j" "j \<le> 57" "h_length res = 2 ^ j"
    using inv by (auto simp: table_inv_def)
  show ?thesis
  proof (cases added)
    case False
    then have "hash_put m res k v = Inr h1"
      using store by (simp add: hash_put.simps)
    moreover have "table_inv h1"
      using facts False j room inv unfolding table_inv_def
      by (auto simp: insert_absorb)
    ultimately show ?thesis
      using facts(2) l1 by simp
  next
    case True
    let ?h2 = "h1\<lparr>h_count := h_count h1 + 1\<rparr>"
    have c2: "unat (h_count ?h2) = card (insert k (dom (lookup res)))"
      using facts(4,6) True by simp
    then have load: "unat (h_count ?h2) * 100 \<le> unat (h_length ?h2) * 75"
      using room facts(2) by simp
    have "unat (h_length ?h2) * 75 < 2 ^ 64"
      using table_inv_no_overflow(2) [OF inv] facts(2) by simp
    then have "\<not> h_length ?h2 * 75 < h_count ?h2 * 100"
      using load load_compare [of "h_count ?h2" "h_length ?h2"] by simp
    then have "hash_put m res k v = Inr ?h2"
      using store True by (simp add: hash_put.simps Let_def)
    moreover have "table_inv ?h2"
      using facts True j load c2 unfolding table_inv_def by auto
    ultimately show ?thesis
      using facts(2) l1 by simp
  qed
qed

lemma reinsert_room:
  assumes "table_inv res"
    and "\<forall>r \<in> set rs. \<exists>p k. r = Inr p \<and> key p = Some k"
    and "card (dom (fold reinsert_effect rs (lookup res))) * 100 \<le> unat (h_length res) * 75"
  shows "reinsert m rs res = Inl OutOfBounds
         \<or> (\<exists>res'. reinsert m rs res = Inr res' \<and> table_inv res'
               \<and> h_length res' = h_length res
               \<and> lookup res' = fold reinsert_effect rs (lookup res))"
  using assms
proof (induction rs arbitrary: res)
  case Nil
  then show ?case by simp
next
  case (Cons r rs)
  obtain p k where r: "r = Inr p" and k: "key p = Some k"
    using Cons.prems(2) by auto
  let ?m1 = "(lookup res)(k \<mapsto> val p)"
  have step: "fold reinsert_effect (r # rs) (lookup res) = fold reinsert_effect rs ?m1"
    using r k by simp
  have "finite (dom ?m1)"
    using Cons.prems(1) by (simp add: table_inv_def)
  then have "finite (dom (fold reinsert_effect rs ?m1))"
    by (rule finite_reinsert_effect)
  then have "card (dom ?m1) \<le> card (dom (fold reinsert_effect rs ?m1))"
    using dom_reinsert_effect [of ?m1 rs] by (simp add: card_mono)
  then have room: "card (insert k (dom (lookup res))) * 100 \<le> unat (h_length res) * 75"
    using Cons.prems(3) step by simp
  consider (fail) "hash_put m res k (val p) = Inl OutOfBounds"
    | (stored) res1 where "hash_put m res k (val p) = Inr res1" "table_inv res1"
        "h_length res1 = h_length res" "lookup res1 = ?m1"
    using hash_put_room [OF Cons.prems(1) room, of m "val p"] by blast
  then show ?case
  proof cases
    case fail
    then show ?thesis
      using r k by simp
  next
    case stored
    have pre2: "\<forall>r \<in> set rs. \<exists>p k. r = Inr p \<and> key p = Some k"
      using Cons.prems(2) by simp
    have pre3: "card (dom (fold reinsert_effect rs (lookup res1))) * 100
                  \<le> unat (h_length res1) * 75"
      using Cons.prems(3) by (simp only: step stored(3,4))
    have eq1: "reinsert m (r # rs) res = reinsert m rs res1"
      using r k stored(1) by simp
    have eq2: "fold reinsert_effect (r # rs) (lookup res) = fold reinsert_effect rs (lookup res1)"
      by (simp only: step stored(4))
    show ?thesis
      unfolding eq1 eq2 stored(3) [symmetric]
      by (rule Cons.IH [OF stored(2) pre2 pre3])
  qed
qed

text \<open>A rehash into a table that is large enough does not rehash again.\<close>

lemma table_reads_keys:
  assumes "hash_ok h"
  shows "\<forall>r \<in> set (table_reads h). \<exists>p k. r = Inr p \<and> key p = Some k"
proof
  fix r
  assume "r \<in> set (table_reads h)"
  then obtain p b where r: "r = Inr p" and b: "b \<in> set (buckets h)" and p: "p \<in> set (live_pairs b)"
    using assms by (auto simp: table_reads_ok)
  obtain i where "i < length (buckets h)" and "b = buckets h ! i"
    using b by (auto simp: in_set_conv_nth)
  then have "bucket_ok (h_length h) i b"
    using assms by (simp add: hash_ok_def)
  then have "\<exists>k. key p = Some k"
    using p by (auto simp: bucket_ok_def)
  then show "\<exists>p k. r = Inr p \<and> key p = Some k"
    using r by simp
qed

lemma hash_resize_room:
  assumes ok: "hash_ok h" and fin: "finite (dom (lookup h))"
    and len: "h_length h = 2 ^ k" and k: "4 \<le> k" "k \<le> 51"
    and load: "card (dom (lookup h)) * 100 \<le> 2 ^ (k + 6) * 75"
  shows "hash_resize (Suc m) h = Inl OutOfBounds
         \<or> (\<exists>h'. hash_resize (Suc m) h = Inr h' \<and> table_inv h' \<and> lookup h' = lookup h)"
proof -
  let ?res = "hash_init_capacity (sizeof_Bucket * next_size (h_length h))"
  have rl: "h_length ?res = 2 ^ (k + 6)"
    using new_table_length [of k] k len by simp
  have ul: "unat (h_length ?res) = 2 ^ (k + 6)"
    unfolding rl using k by (simp add: unat_power2)
  have "4 \<le> k + 6 \<and> k + 6 \<le> 57 \<and> h_length ?res = 2 ^ (k + 6)"
    using k rl by simp
  then have "\<exists>j. 4 \<le> j \<and> j \<le> 57 \<and> h_length ?res = 2 ^ j"
    by blast
  moreover have "h_count ?res = 0"
    by (simp add: hash_init_capacity_def)
  ultimately have inv: "table_inv ?res"
    by (simp add: table_inv_def hash_ok_init lookup_init)
  have whole: "fold reinsert_effect (table_reads h) (lookup ?res) = lookup h"
    using ok by (simp add: lookup_init fold_table_reads)
  have room: "card (dom (fold reinsert_effect (table_reads h) (lookup ?res))) * 100
                \<le> unat (h_length ?res) * 75"
    unfolding whole ul by (rule load)
  have "reinsert m (table_reads h) ?res = Inl OutOfBounds
         \<or> (\<exists>res'. reinsert m (table_reads h) ?res = Inr res' \<and> table_inv res'
               \<and> h_length res' = h_length ?res
               \<and> lookup res' = fold reinsert_effect (table_reads h) (lookup ?res))"
    by (rule reinsert_room [OF inv table_reads_keys [OF ok] room])
  then show ?thesis
    unfolding whole by auto
qed

text \<open>The end of \<^verbatim>\<open>hash_put\<close> and \<^verbatim>\<open>hash_inc\<close>, from \<^verbatim>\<open>++hash->count\<close> on.\<close>

lemma insert_finish:
  assumes inv: "table_inv h" and small: "unat (h_count h) < 2 ^ 40"
    and store: "store_pair upd h k v = Inr (h1, added)"
  shows "(if added then
            (let h'' = h1\<lparr>h_count := h_count h1 + 1\<rparr>
             in if h_count h'' * 100 > h_length h'' * 75 then hash_resize (Suc m) h'' else Inr h'')
          else Inr h1) = Inl OutOfBounds
         \<or> (\<exists>h'. (if added then
            (let h'' = h1\<lparr>h_count := h_count h1 + 1\<rparr>
             in if h_count h'' * 100 > h_length h'' * 75 then hash_resize (Suc m) h'' else Inr h'')
          else Inr h1) = Inr h' \<and> table_inv h' \<and> lookup h' = lookup h1)"
proof -
  note facts = store_pair_count [OF inv store]
  obtain j where j: "4 \<le> j" "j \<le> 57" "h_length h = 2 ^ j"
    using inv by (auto simp: table_inv_def)
  have ul: "unat (h_length h) = 2 ^ j"
    using j by (simp add: unat_power2)
  have load: "unat (h_count h) * 100 \<le> unat (h_length h) * 75"
    using inv by (simp add: table_inv_def)
  show ?thesis
  proof (cases added)
    case False
    have "h_count h1 = h_count h"
      using store_pair_ok(3) [of h upd k v h1 added] inv store by (simp add: table_inv_def)
    then have "table_inv h1"
      using facts False j load unfolding table_inv_def by auto
    then show ?thesis
      using False by simp
  next
    case True
    let ?h2 = "h1\<lparr>h_count := h_count h1 + 1\<rparr>"
    have c2: "unat (h_count ?h2) = Suc (unat (h_count h))"
      and d2: "unat (h_count ?h2) = card (dom (lookup h1))"
      using facts(6,7) True by simp_all
    define big where "big \<longleftrightarrow> h_length ?h2 * 75 < h_count ?h2 * 100"
    have lh: "h_length ?h2 = h_length h"
      using facts(2) by simp
    have e1: "unat (h_count ?h2) * 100 < 2 ^ 64"
      unfolding c2 using small by simp
    have e2: "unat (h_length ?h2) * 75 < 2 ^ 64"
      unfolding lh by (rule table_inv_no_overflow(2) [OF inv])
    have "big \<longleftrightarrow> unat (h_length ?h2) * 75 < unat (h_count ?h2) * 100"
      unfolding big_def by (rule load_compare [OF e1 e2])
    then have cmp: "big \<longleftrightarrow> unat (h_length h) * 75 < Suc (unat (h_count h)) * 100"
      by (simp only: lh c2)
    have tail: "(if added then
            (let h'' = h1\<lparr>h_count := h_count h1 + 1\<rparr>
             in if h_count h'' * 100 > h_length h'' * 75 then hash_resize (Suc m) h'' else Inr h'')
          else Inr h1) = (if big then hash_resize (Suc m) ?h2 else Inr ?h2)"
      using True by (simp add: Let_def big_def)
    show ?thesis
    proof (cases big)
      case False
      then have "\<not> unat (h_length h) * 75 < Suc (unat (h_count h)) * 100"
        using cmp by simp
      then have "table_inv ?h2"
        using facts True j c2 d2 unfolding table_inv_def by auto
      then show ?thesis
        unfolding tail using False by simp
    next
      case grow: True
      then have more: "unat (h_length h) * 75 < Suc (unat (h_count h)) * 100"
        using cmp by simp
      have "j \<le> 51"
      proof (rule ccontr)
        assume "\<not> j \<le> 51"
        then have "(2 :: nat) ^ 52 \<le> 2 ^ j"
          by (simp only: power_increasing_iff)
        then show False
          using more small ul by simp
      qed
      moreover have "(2 :: nat) ^ 4 \<le> 2 ^ j"
        using j(1) by (simp only: power_increasing_iff)
      then have "card (dom (lookup ?h2)) * 100 \<le> 2 ^ (j + 6) * 75"
        using d2 c2 load ul by (simp add: power_add)
      ultimately have "hash_resize (Suc m) ?h2 = Inl OutOfBounds
         \<or> (\<exists>h'. hash_resize (Suc m) ?h2 = Inr h' \<and> table_inv h' \<and> lookup h' = lookup ?h2)"
        using facts(1,2,3) j
        by (intro hash_resize_room [where k = j]) simp_all
      then show ?thesis
        unfolding tail using grow by simp
    qed
  qed
qed

lemma hash_put_total:
  assumes inv: "table_inv h" and small: "unat (h_count h) < 2 ^ 40"
  shows "hash_put (Suc m) h k v = Inl OutOfBounds
         \<or> (\<exists>h'. hash_put (Suc m) h k v = Inr h' \<and> table_inv h'
               \<and> lookup h' = (lookup h)(k \<mapsto> v))"
proof (cases "store_pair (\<lambda>old. v) h k v")
  case (Inl e)
  then have "e = OutOfBounds"
    using store_pair_error [of h "\<lambda>old. v" k v e] inv table_inv_no_overflow(6) [OF inv]
    by (auto simp: table_inv_def)
  then show ?thesis
    using Inl by (simp add: hash_put.simps)
next
  case (Inr x)
  obtain h1 added where x: "x = (h1, added)"
    by (cases x)
  note store = Inr [unfolded x]
  have l1: "lookup h1 = (lookup h)(k \<mapsto> v)"
    using store_pair_ok(5) [of h "\<lambda>old. v" k v h1 added] store inv
    by (simp add: table_inv_def split: option.splits)
  show ?thesis
    using insert_finish [OF inv small store, of m] store
    unfolding l1 by (simp add: hash_put.simps)
qed

lemma hash_inc_total:
  assumes inv: "table_inv h" and small: "unat (h_count h) < 2 ^ 40"
  shows "hash_inc (Suc m) h k v = Inl OutOfBounds
         \<or> (\<exists>h'. hash_inc (Suc m) h k v = Inr h' \<and> table_inv h'
               \<and> lookup h' = (lookup h)(k \<mapsto> (case lookup h k of None \<Rightarrow> v | Some old \<Rightarrow> old + v)))"
proof (cases "store_pair (\<lambda>old. old + v) h k v")
  case (Inl e)
  then have "e = OutOfBounds"
    using store_pair_error [of h "\<lambda>old. old + v" k v e] inv table_inv_no_overflow(6) [OF inv]
    by (auto simp: table_inv_def)
  then show ?thesis
    using Inl by (simp add: hash_inc_def)
next
  case (Inr x)
  obtain h1 added where x: "x = (h1, added)"
    by (cases x)
  note store = Inr [unfolded x]
  have l1: "lookup h1 = (lookup h)(k \<mapsto> (case lookup h k of None \<Rightarrow> v | Some old \<Rightarrow> old + v))"
    using store_pair_ok(5) [of h "\<lambda>old. old + v" k v h1 added] store inv
    by (simp add: table_inv_def)
  show ?thesis
    using insert_finish [OF inv small store, of m] store
    unfolding l1 by (simp add: hash_inc_def)
qed


subsection \<open>Counting the keys\<close>

text \<open>
  After fewer than \<open>2 ^ 40\<close> insertions into a map made by \<^verbatim>\<open>hash_init\<close>, unless an
  insertion has written out of bounds, the count is the number of distinct keys
  inserted and the load is at most 0.75; one unit of fuel is enough, since no rehash
  is nested in another.
\<close>

lemma dom_insertions: "dom (foldl insertion_effect m ops) = dom m \<union> insertion_key ` set ops"
proof (induction ops arbitrary: m)
  case Nil
  then show ?case by simp
next
  case (Cons x ops)
  then show ?case
    by (cases x) auto
qed

lemma insertion_effect_dom:
  "dom (insertion_effect m x) = insert (insertion_key x) (dom m)"
  by (cases x) auto

lemma insert_all_total:
  assumes "table_inv h" and "card (dom (lookup h)) + length ops < 2 ^ 40"
  shows "insert_all (Suc m) h ops = Inl OutOfBounds
         \<or> (\<exists>h'. insert_all (Suc m) h ops = Inr h' \<and> table_inv h'
               \<and> lookup h' = foldl insertion_effect (lookup h) ops)"
  using assms
proof (induction ops arbitrary: h)
  case Nil
  then show ?case by simp
next
  case (Cons x ops)
  have fin: "finite (dom (lookup h))" and cnt: "unat (h_count h) = card (dom (lookup h))"
    using Cons.prems(1) by (simp_all add: table_inv_def)
  then have small: "unat (h_count h) < 2 ^ 40"
    using Cons.prems(2) by simp
  have one: "(case x of Put k v \<Rightarrow> hash_put (Suc m) h k v | Inc k v \<Rightarrow> hash_inc (Suc m) h k v)
               = Inl OutOfBounds
         \<or> (\<exists>h1. (case x of Put k v \<Rightarrow> hash_put (Suc m) h k v | Inc k v \<Rightarrow> hash_inc (Suc m) h k v)
               = Inr h1 \<and> table_inv h1 \<and> lookup h1 = insertion_effect (lookup h) x)"
    using hash_put_total [OF Cons.prems(1) small] hash_inc_total [OF Cons.prems(1) small]
    by (cases x) simp_all
  have unfold: "insert_all (Suc m) h (x # ops)
      = (case (case x of Put k v \<Rightarrow> hash_put (Suc m) h k v | Inc k v \<Rightarrow> hash_inc (Suc m) h k v) of
           Inl e \<Rightarrow> Inl e | Inr h1 \<Rightarrow> insert_all (Suc m) h1 ops)"
    by (cases x) simp_all
  from one show ?case
  proof
    assume "(case x of Put k v \<Rightarrow> hash_put (Suc m) h k v | Inc k v \<Rightarrow> hash_inc (Suc m) h k v)
               = Inl OutOfBounds"
    then show ?thesis
      unfolding unfold by simp
  next
    assume "\<exists>h1. (case x of Put k v \<Rightarrow> hash_put (Suc m) h k v | Inc k v \<Rightarrow> hash_inc (Suc m) h k v)
               = Inr h1 \<and> table_inv h1 \<and> lookup h1 = insertion_effect (lookup h) x"
    then obtain h1 where h1: "(case x of Put k v \<Rightarrow> hash_put (Suc m) h k v
                                | Inc k v \<Rightarrow> hash_inc (Suc m) h k v) = Inr h1"
      and inv1: "table_inv h1" and l1: "lookup h1 = insertion_effect (lookup h) x"
      by blast
    have "card (dom (lookup h1)) \<le> Suc (card (dom (lookup h)))"
      unfolding l1 insertion_effect_dom using fin by (simp add: card_insert_if)
    then have "card (dom (lookup h1)) + length ops < 2 ^ 40"
      using Cons.prems(2) by simp
    then have "insert_all (Suc m) h1 ops = Inl OutOfBounds
         \<or> (\<exists>h'. insert_all (Suc m) h1 ops = Inr h' \<and> table_inv h'
               \<and> lookup h' = foldl insertion_effect (lookup h1) ops)"
      by (rule Cons.IH [OF inv1])
    then show ?thesis
      unfolding unfold h1 l1 by simp
  qed
qed

lemma table_inv_init: "table_inv hash_init"
proof -
  have "h_length hash_init = 2 ^ 4" and "h_count hash_init = 0"
    by (simp_all add: hash_init_def hash_init_capacity_def next_size_def DEFAULT_CAPACITY_def
        RESIZE_MIN_def)
  moreover from this have "\<exists>k. 4 \<le> k \<and> k \<le> 57 \<and> h_length hash_init = 2 ^ k"
    by (intro exI [of _ 4]) simp
  ultimately show ?thesis
    using hash_init_ok by (simp add: table_inv_def)
qed

lemma insert_all_counts:
  assumes "length ops < 2 ^ 40"
  shows "insert_all (Suc m) hash_init ops = Inl OutOfBounds
         \<or> (\<exists>h. insert_all (Suc m) hash_init ops = Inr h
               \<and> unat (h_count h) = card (insertion_key ` set ops)
               \<and> unat (h_count h) * 100 \<le> unat (h_length h) * 75)"
proof -
  have "card (dom (lookup hash_init)) + length ops < 2 ^ 40"
    using assms hash_init_ok(3) by simp
  then have "insert_all (Suc m) hash_init ops = Inl OutOfBounds
         \<or> (\<exists>h'. insert_all (Suc m) hash_init ops = Inr h' \<and> table_inv h'
               \<and> lookup h' = foldl insertion_effect (lookup hash_init) ops)"
    by (rule insert_all_total [OF table_inv_init])
  then show ?thesis
    by (auto simp: table_inv_def dom_insertions hash_init_ok(3))
qed

subsection \<open>Growth of the table\<close>

text \<open>
  C4 (does not hold, defect of the code): \<^verbatim>\<open>hash_resize\<close> passes
  \<^verbatim>\<open>sizeof(Bucket) * next_size(length)\<close> as the capacity of the new table, and
  \<^verbatim>\<open>hash_init_capacity\<close> applies \<^verbatim>\<open>next_size\<close> again: a table of 16 slots becomes a
  table of 1024 slots, not of 32. So does the table of a map that receives its
  thirteenth key. (By \<open>new_table_length\<close> the factor is 64 for every table of \<open>2 ^ k\<close>
  slots with \<open>4 \<le> k \<le> 57\<close>; by \<open>hash_resize_ok\<close> the values of the keys are kept.)
\<close>

theorem hash_resize_not_double:
  "h_length hash_init = 16
   \<and> h_length (projr (hash_resize 1 hash_init)) = 1024
   \<and> h_length (projr (insert_all 1 hash_init (map (\<lambda>k. Put k 1) thirteen_keys))) = 1024"
  by code_simp

subsection \<open>Growth of a bucket\<close>

text \<open>
  C5 (does not hold, defect of the code): sixteen keys with the same hash value are
  inserted and counted, and the insertion of a seventeenth, which has to grow the
  bucket, writes the new pair at index 32 of an array of 32 pairs. (By
  \<open>insert_all_counts\<close> an access out of bounds is the only way in which a sequence of
  fewer than \<open>2 ^ 40\<close> insertions fails to end with the count equal to the number of
  distinct keys and the load at most 0.75.)
\<close>

theorem hash_inc_bucket_overflow:
  "h_count (projr (insert_all 1 hash_init (map (\<lambda>k. Inc k 1) (butlast colliding_keys)))) = 16
   \<and> insert_all 1 hash_init (map (\<lambda>k. Inc k 1) colliding_keys) = Inl OutOfBounds"
  by code_simp

subsection \<open>The sentinel\<close>


section \<open>Properties of the scanning engine\<close>

subsection \<open>Auxiliary facts\<close>

lemma c_string_capped:
  assumes "p \<le> q" and "q < length buf"
  shows "c_string (buf[q := NUL]) p = Inr (takeWhile (\<lambda>c. c \<noteq> NUL) (drop p (buf[q := NUL])))"
proof -
  have "drop p (buf[q := NUL]) ! (q - p) = NUL"
    using assms by simp
  moreover have "q - p < length (drop p (buf[q := NUL]))"
    using assms by simp
  ultimately have "NUL \<in> set (drop p (buf[q := NUL]))"
    by (metis nth_mem)
  then show ?thesis
    by (simp add: c_string_def)
qed

lemma unat_MAX_WORD_LEN: "unat (of_nat MAX_WORD_LEN :: 64 word) = MAX_WORD_LEN"
  by (simp add: MAX_WORD_LEN_def)

lemma freq_scan_step_no_match:
  assumes "unat (s_i st) \<le> unat (s_i st + of_nat MAX_WORD_LEN)"
    and "unat (s_i st + of_nat MAX_WORD_LEN) < length (s_buffer st)"
    and "\<And>s. regexec s = REG_NOMATCH"
  shows "freq_scan_step rf regexec overlap w st =
           Inr (Return (freq_scan_result st)
                  (st\<lparr>s_buffer := (s_buffer st)[unat (s_i st + of_nat MAX_WORD_LEN) := NUL]\<rparr>))"
  using assms by (simp add: freq_scan_step_def Let_def c_string_capped)

lemma freq_scan_step_out_of_space:
  assumes "unat (s_i st) \<le> unat (s_i st + of_nat MAX_WORD_LEN)"
    and "unat (s_i st + of_nat MAX_WORD_LEN) < length (s_buffer st)"
    and "\<And>s. regexec s = REG_ESPACE"
  shows "freq_scan_step rf regexec overlap w st =
           Inr (Return (- 4)
                  (st\<lparr>s_buffer := (s_buffer st)[unat (s_i st + of_nat MAX_WORD_LEN) := NUL]\<rparr>))"
  using assms by (simp add: freq_scan_step_def Let_def c_string_capped)

lemma freq_scan_first_no_match:
  assumes "0 < len" and "MAX_WORD_LEN < length buffer" and "\<And>s. regexec s = REG_NOMATCH"
  shows "freq_scan (Suc n) rf hash buffer len regexec overlap w =
           Inr (if hash = None then 0 else 0,
                \<lparr>s_hash = hash, s_buffer = buffer[MAX_WORD_LEN := NUL], s_matches = 0, s_i = 0\<rparr>)"
  using assms unat_MAX_WORD_LEN
  by (simp add: freq_scan_def freq_scan_step_no_match freq_scan_result_def)

lemma freq_scan_first_out_of_space:
  assumes "0 < len" and "MAX_WORD_LEN < length buffer" and "\<And>s. regexec s = REG_ESPACE"
  shows "freq_scan (Suc n) rf hash buffer len regexec overlap w =
           Inr (- 4, \<lparr>s_hash = hash, s_buffer = buffer[MAX_WORD_LEN := NUL], s_matches = 0, s_i = 0\<rparr>)"
  using assms unat_MAX_WORD_LEN
  by (simp add: freq_scan_def freq_scan_step_out_of_space)

lemma long_buffer_length: "MAX_WORD_LEN < length long_buffer"
  by (simp add: long_buffer_def MAX_WORD_LEN_def)

lemma long_buffer_capped: "long_buffer[MAX_WORD_LEN := NUL] \<noteq> long_buffer"
proof -
  have "long_buffer ! MAX_WORD_LEN = CHR ''a''"
    by (simp add: long_buffer_def MAX_WORD_LEN_def nth_append)
  then have "long_buffer[MAX_WORD_LEN := NUL] ! MAX_WORD_LEN \<noteq> long_buffer ! MAX_WORD_LEN"
    using long_buffer_length by (simp add: NUL_def)
  then show ?thesis
    by metis
qed


subsection \<open>The file of 1001 letters\<close>

lemma buffer_extent_1001: "buffer_extent 256 1001 = 1024"
  by (simp add: buffer_extent.simps)

lemma takeWhile_letters:
  "takeWhile (\<lambda>c. c \<noteq> NUL) (replicate n (CHR ''a'') @ NUL # rest) = replicate n (CHR ''a'')"
  by (induction n) (simp_all add: NUL_def)

lemma read_file_1001:
  "\<exists>rest. read_file (one_file (replicate 1001 (CHR ''a''))) fresh filename =
            Inr (0, replicate 1001 (CHR ''a'') @ NUL # rest, 1001)"
  by (simp add: read_file_def one_file_def takeWhile_replicate buffer_extent_1001)

lemma filter_chars_letters:
  "filter_chars (replicate n (CHR ''a'') @ NUL # rest) = Inr (replicate n (CHR ''a'') @ NUL # rest)"
  by (simp add: filter_chars_def c_string_def takeWhile_letters tolower_def)

lemma length_letters: "MAX_WORD_LEN < length (replicate 1001 (CHR ''a'') @ NUL # rest)"
  by (simp add: MAX_WORD_LEN_def)

subsection \<open>An iteration with a match\<close>

text \<open>An iteration that goes on has put the saved byte back.\<close>

lemma freq_scan_step_restores:
  assumes "freq_scan_step rf regexec overlap w st = Inr (Next st')"
  shows "s_buffer st' = s_buffer st"
proof -
  let ?q = "unat (s_i st + of_nat MAX_WORD_LEN)"
  let ?buf = "(s_buffer st)[?q := NUL]"
  have q: "?q < length (s_buffer st)"
    using assms by (rule_tac ccontr) (simp add: freq_scan_step_def Let_def)
  obtain s where s: "c_string ?buf (unat (s_i st)) = Inr s"
    using assms q
    by (cases "c_string ?buf (unat (s_i st))") (simp_all add: freq_scan_step_def Let_def)
  obtain m0 m1 where m: "regexec s = Match m0 m1"
    using assms q s by (cases "regexec s") (simp_all add: freq_scan_step_def Let_def)
  have "s_buffer st' = ?buf[?q := s_buffer st ! ?q]"
    using assms q s m
    by (cases "s_hash st") (auto simp: freq_scan_step_def Let_def split: sum.splits)
  then show ?thesis
    by simp
qed

subsection \<open>Exits of the scanning loop\<close>

text \<open>
  C3 (does not hold, defect of the code): \<^verbatim>\<open>freq_scan\<close> writes NUL at offset
  \<open>i + MAX_WORD_LEN\<close> and puts the saved byte back only after a successful match. On a
  buffer of 1001 letters (index 1000 holds a letter), when the first attempt finds no
  match the function returns 0, and when the matcher is out of memory it returns -4; in
  both cases the returned buffer holds NUL at index 1000 and so differs from the buffer
  at entry.
\<close>

theorem freq_scan_leaves_cap:
  "freq_scan 1 0 None long_buffer 1001 (no_match ()) True 1 =
     Inr (0, \<lparr>s_hash = None, s_buffer = long_buffer[MAX_WORD_LEN := NUL],
              s_matches = 0, s_i = 0\<rparr>)
   \<and> freq_scan 1 0 None long_buffer 1001 (out_of_space ()) True 1 =
     Inr (- 4, \<lparr>s_hash = None, s_buffer = long_buffer[MAX_WORD_LEN := NUL],
                s_matches = 0, s_i = 0\<rparr>)
   \<and> long_buffer[MAX_WORD_LEN := NUL] \<noteq> long_buffer"
  using freq_scan_first_no_match [of 1001 long_buffer "no_match ()" 0 0 None True 1]
    freq_scan_first_out_of_space [of 1001 long_buffer "out_of_space ()" 0 0 None True 1]
    long_buffer_length long_buffer_capped
  by (simp add: no_match_def out_of_space_def)

subsection \<open>A matcher that runs out of memory\<close>

lemma freq_read_file_out_of_space:
  assumes "regcomp regex = Some compiled"
    and "read_file fs uninit filename = Inr (0, buffer, len)"
    and "filter_chars buffer = Inr buffer'"
    and "0 < len" and "MAX_WORD_LEN < length buffer'"
    and "\<And>s. regexec compiled s = REG_ESPACE"
  shows "freq_read_file regcomp regexec fs uninit (Suc n) rf hash filename regex multiplier
           = Inr (0, hash)"
  using assms
  by (simp add: freq_read_file_def freq_scan_first_out_of_space double_div_int_def)

text \<open>
  C6 (does not hold, defect of the code): \<^verbatim>\<open>freq_scan\<close> does return -4 when the matcher
  is out of memory, a result that no other exit gives (see C3 for the value). But
  \<^verbatim>\<open>freq_read_file\<close> uses that result as the divisor of the weight and returns its own
  variable \<^verbatim>\<open>matches\<close>, which is always 0: for a file of 1001 letters and a matcher that
  is out of memory, it returns 0, the code of success, although its header documents
  the return code -4 for this case.
\<close>

theorem freq_read_file_hides_out_of_space:
  "freq_read_file any_regex out_of_space (one_file (replicate 1001 (CHR ''a''))) fresh
     1 0 hash_init ''corpus.txt'' ''a'' 5 = Inr (0, hash_init)"
proof -
  obtain rest where "read_file (one_file (replicate 1001 (CHR ''a''))) fresh ''corpus.txt'' =
      Inr (0, replicate 1001 (CHR ''a'') @ NUL # rest, 1001)"
    using read_file_1001 by blast
  moreover have "any_regex ''a'' = Some ()"
    by (simp add: any_regex_def)
  moreover have "(0 :: size_t) < 1001"
    by simp
  moreover have "out_of_space () s = REG_ESPACE" for s
    by (simp add: out_of_space_def)
  ultimately have "freq_read_file any_regex out_of_space (one_file (replicate 1001 (CHR ''a'')))
      fresh (Suc 0) 0 hash_init ''corpus.txt'' ''a'' 5 = Inr (0, hash_init)"
    using filter_chars_letters length_letters
    by (intro freq_read_file_out_of_space) auto
  then show ?thesis
    by simp
qed

subsection \<open>Overlap and advance\<close>



subsection \<open>The capped index\<close>

text \<open>
  C9: an iteration of the loop of \<^verbatim>\<open>freq_scan\<close> at offset \<open>i\<close> reads and writes index
  \<open>i + MAX_WORD_LEN\<close> of the buffer whatever the extent of the buffer is: when the extent
  is at most that index the access is out of bounds. In particular, with a buffer of at
  most \<open>MAX_WORD_LEN\<close> bytes and a positive length, the first access of \<^verbatim>\<open>freq_scan\<close> is
  out of bounds.
\<close>

theorem freq_scan_out_of_bounds:
  "(s_i st < len \<and> length (s_buffer st) \<le> unat (s_i st + of_nat MAX_WORD_LEN)
      \<longrightarrow> freq_scan_loop (Suc n) rf regexec overlap w len st = Inl OutOfBounds)
   \<and> (0 < len' \<and> length buffer \<le> MAX_WORD_LEN
      \<longrightarrow> freq_scan (Suc n) rf hash buffer len' regexec overlap w = Inl OutOfBounds)"
  using unat_MAX_WORD_LEN
  by (simp add: freq_scan_def freq_scan_step_def Let_def)

theorem freq_scan_out_of_bounds_witness:
  "freq_scan_loop (Suc 0) 0 (match_first ()) True 1 4
     \<lparr>s_hash = None, s_buffer = ''aabb'' @ [NUL], s_matches = 0, s_i = 0\<rparr> = Inl OutOfBounds
   \<and> freq_scan (Suc 0) 0 None (''aabb'' @ [NUL]) 4 (match_first ()) True 1 = Inl OutOfBounds"
  using freq_scan_out_of_bounds [of "\<lparr>s_hash = None, s_buffer = ''aabb'' @ [NUL], s_matches = 0, s_i = 0\<rparr>"
      4 0 0 "match_first ()" True 1 4 "''aabb'' @ [NUL]" None]
    unat_MAX_WORD_LEN
  by (simp add: MAX_WORD_LEN_def)

subsection \<open>No match in a file\<close>

text \<open>
  C2 as amended: \<^verbatim>\<open>freq_read_file\<close> has no guard. Whenever the counting pass returns 0,
  the quotient of the multiplier by 0 is formed; this is the outcome of the call.
\<close>

theorem freq_read_file_zero_matches:
  assumes "regcomp regex = Some compiled"
    and "read_file fs uninit filename = Inr (0, buffer, len)"
    and "filter_chars buffer = Inr buffer'"
    and "freq_scan n rf None buffer' len (regexec compiled) (freq_overlap regex) 1 = Inr (0, st)"
  shows "freq_read_file regcomp regexec fs uninit n rf hash filename regex multiplier
           = Inl DivisionByZero"
  using assms by (simp add: freq_read_file_def double_div_int_def)

theorem freq_read_file_zero_matches_witness:
  "freq_read_file any_regex no_match (one_file (replicate 1001 (CHR ''a''))) fresh
     1 0 hash_init ''corpus.txt'' ''b'' 5 = Inl DivisionByZero"
proof -
  obtain rest where loaded: "read_file (one_file (replicate 1001 (CHR ''a''))) fresh ''corpus.txt'' =
      Inr (0, replicate 1001 (CHR ''a'') @ NUL # rest, 1001)"
    using read_file_1001 by blast
  have compiled: "any_regex ''b'' = Some ()"
    by (simp add: any_regex_def)
  have "no_match () s = REG_NOMATCH" for s
    by (simp add: no_match_def)
  then have counted: "freq_scan 1 0 None (replicate 1001 (CHR ''a'') @ NUL # rest) 1001
               (no_match ()) (freq_overlap ''b'') 1
             = Inr (0, \<lparr>s_hash = None,
                        s_buffer = (replicate 1001 (CHR ''a'') @ NUL # rest)[MAX_WORD_LEN := NUL],
                        s_matches = 0, s_i = 0\<rparr>)"
    using freq_scan_first_no_match [of 1001 "replicate 1001 (CHR ''a'') @ NUL # rest"
        "no_match ()" 0 0 None "freq_overlap ''b''" 1] length_letters [of rest]
    by simp
  show ?thesis
    by (rule freq_read_file_zero_matches
          [where regcomp = any_regex and regex = "''b''" and regexec = no_match
              and compiled = "()",
            OF compiled loaded filter_chars_letters counted])
qed

text \<open>
  C2 as stated does not hold: for an empty file the counting pass returns 0 and the
  call of \<^verbatim>\<open>freq_read_file\<close> ends in the division by zero.
\<close>

theorem freq_read_file_empty_file:
  "freq_scan 1 0 None (NUL # map fresh [1..<256]) 0 (no_match ()) True 1
     = Inr (0, \<lparr>s_hash = None, s_buffer = NUL # map fresh [1..<256], s_matches = 0, s_i = 0\<rparr>)
   \<and> freq_read_file any_regex no_match (one_file []) fresh 1 0 hash_init ''empty.txt'' ''b'' 5
     = Inl DivisionByZero"
proof -
  have "read_file (one_file []) fresh ''empty.txt'' = Inr (0, NUL # map fresh [1..<256], 0)"
    by (simp add: read_file_def one_file_def buffer_extent.simps)
  moreover have "filter_chars (NUL # map fresh [1..<256]) = Inr (NUL # map fresh [1..<256])"
    by (simp add: filter_chars_def c_string_def)
  ultimately show ?thesis
    by (simp add: freq_read_file_def any_regex_def freq_scan_def freq_scan_result_def
        double_div_int_def)
qed

section \<open>Properties of the extraction of word sequences\<close>

text \<open>
  C8 (does not hold, defect of the code): on \<open>the quick brown fox\<close> with two words per
  window, the map receives exactly the keys \<open>the quick\<close>, \<open>quick brown\<close> and
  \<open>brown fox\<close>. But when the buffer ends with a separator, as in \<open>brown fox\<close> followed
  by a newline, the last window holds one word only and is inserted all the same, as
  the key \<open>fox\<close> followed by a space: the loop over the words counts an iteration that
  found the end of the buffer instead of a word.
\<close>

theorem find_n_words_partial_window:
  "hash_exists (snd (projr (find_n_words_for_file (one_file (''brown fox'' @ [CHR 0x0A])) fresh
      5 1 hash_init ''corpus.txt'' 2 1))) ''fox '' = Inr 1"
  by code_simp

lemma find_n_words_scenario:
  "h_count (snd (projr (find_n_words_for_file (one_file ''the quick brown fox'') fresh
      5 1 hash_init ''corpus.txt'' 2 1))) = 3
   \<and> map (hash_exists (snd (projr (find_n_words_for_file (one_file ''the quick brown fox'') fresh
      5 1 hash_init ''corpus.txt'' 2 1)))) [''the quick'', ''quick brown'', ''brown fox'']
     = [Inr 1, Inr 1, Inr 1]"
  by code_simp

end
